theory Spec2Isabelle
  imports Main "HOL-Library.Word"
begin

unbundle bit_operations_syntax

section \<open>RV-C source address claim arbitration (Node-RED function nodes)\<close>

text \<open>
  The handlers embedded here are the function nodes
  \<^verbatim>\<open>address_claim_request.js\<close> (identity, address selection, claim broadcast),
  \<^verbatim>\<open>address_claim_monitor.js\<close> (conflict monitor),
  \<^verbatim>\<open>address_claim_success.js\<close> (commit on timer expiry) and the second timer handler
  "RV-C Store Claimed Address Function" that follows \<^verbatim>\<open>unique_autofill.js\<close> in the
  source tree. Each handler reads and writes the Node-RED context stores; the model passes
  the stores explicitly as a record and returns the updated record together with the
  message(s) the handler returns. Calls to \<^verbatim>\<open>node.warn\<close>, \<^verbatim>\<open>node.log\<close> and
  \<^verbatim>\<open>node.error\<close> only write to the log and are left out.

  Strings are lists of 8-bit characters; the model covers ASCII text, which is what CAN
  frames in the \<^verbatim>\<open>CANID#PAYLOAD\<close> text format consist of.
\<close>

subsection \<open>JavaScript string and number primitives used by the handlers\<close>

text \<open>\<^verbatim>\<open>String.prototype.toUpperCase\<close> on ASCII text.\<close>

definition toUpperChar :: "char \<Rightarrow> char" where
  "toUpperChar c =
     (let n = (of_char c :: nat) in if 97 \<le> n \<and> n \<le> 122 then char_of (n - 32) else c)"

definition toUpperCase :: "string \<Rightarrow> string" where
  "toUpperCase s = map toUpperChar s"

text \<open>Value of one hexadecimal digit, in either case; \<open>None\<close> for any other character.\<close>

definition hexDigit :: "char \<Rightarrow> nat option" where
  "hexDigit c =
     (let n = (of_char c :: nat) in
      if 48 \<le> n \<and> n \<le> 57 then Some (n - 48)
      else if 65 \<le> n \<and> n \<le> 70 then Some (n - 55)
      else if 97 \<le> n \<and> n \<le> 102 then Some (n - 87)
      else None)"

text \<open>Reading a run of hexadecimal digits, most significant first.\<close>

fun parseHexDigits :: "nat \<Rightarrow> string \<Rightarrow> nat option" where
  "parseHexDigits acc [] = Some acc"
| "parseHexDigits acc (c # cs) =
     (case hexDigit c of None \<Rightarrow> None | Some d \<Rightarrow> parseHexDigits (16 * acc + d) cs)"

text \<open>ASCII white space and line terminators, which the string-to-number conversions strip.\<close>

definition isWhiteSpace :: "char \<Rightarrow> bool" where
  "isWhiteSpace c = (let n = (of_char c :: nat) in (9 \<le> n \<and> n \<le> 13) \<or> n = 32)"

definition trimEnd :: "string \<Rightarrow> string" where
  "trimEnd s = rev (dropWhile isWhiteSpace (rev s))"

datatype js_error = TypeError | SyntaxError

text \<open>
  \<^verbatim>\<open>BigInt("0x" + s)\<close>: the argument is trimmed; what follows the prefix must be a
  non-empty run of hexadecimal digits, otherwise a SyntaxError is thrown. The text before
  \<open>s\<close> is the fixed prefix, so only trailing white space can be stripped. A \<open>null\<close> or
  \<open>undefined\<close> operand concatenates as the text \<^verbatim>\<open>null\<close> or \<^verbatim>\<open>undefined\<close>,
  which is not hexadecimal.
\<close>

definition BigInt0x :: "string option \<Rightarrow> js_error + nat" where
  "BigInt0x name =
     (case name of
        None \<Rightarrow> Inl SyntaxError
      | Some s \<Rightarrow>
          (let t = trimEnd s in
           if t = [] then Inl SyntaxError
           else (case parseHexDigits 0 t of None \<Rightarrow> Inl SyntaxError | Some v \<Rightarrow> Inr v)))"

text \<open>
  \<^verbatim>\<open>parseInt(x, 16)\<close>: leading white space, an optional sign and an optional
  \<^verbatim>\<open>0x\<close>/\<^verbatim>\<open>0X\<close> prefix are skipped, then the longest run of hexadecimal digits is
  read; an empty run gives \<open>NaN\<close>, here \<open>None\<close>. An absent field is converted to the
  text \<^verbatim>\<open>undefined\<close>, which gives \<open>NaN\<close> as well. Numbers are integers here; the
  JavaScript result is the same for every value below \<open>2 ^ 53\<close>, far above any address.
\<close>

definition stripHexPrefix :: "string \<Rightarrow> string" where
  "stripHexPrefix s =
     (case s of
        a # b # rest \<Rightarrow> if a = CHR ''0'' \<and> (b = CHR ''x'' \<or> b = CHR ''X'') then rest else s
      | _ \<Rightarrow> s)"

definition parseInt16 :: "string option \<Rightarrow> int option" where
  "parseInt16 x =
     (case x of
        None \<Rightarrow> None
      | Some s \<Rightarrow>
          (let t = dropWhile isWhiteSpace s;
               neg = (t \<noteq> [] \<and> hd t = CHR ''-'');
               u = (if t \<noteq> [] \<and> (hd t = CHR ''-'' \<or> hd t = CHR ''+'') then tl t else t);
               ds = takeWhile (\<lambda>c. hexDigit c \<noteq> None) (stripHexPrefix u)
           in if ds = [] then None
              else (case parseHexDigits 0 ds of
                      None \<Rightarrow> None
                    | Some v \<Rightarrow> Some (if neg then - int v else int v))))"

text \<open>\<^verbatim>\<open>Number.prototype.toString(16)\<close> on an integer: lower-case digits, no padding.\<close>

definition hexChar :: "nat \<Rightarrow> char" where
  "hexChar d = ''0123456789abcdef'' ! d"

function toString16 :: "nat \<Rightarrow> string" where
  "toString16 n = (if n < 16 then [hexChar n] else toString16 (n div 16) @ [hexChar (n mod 16)])"
  by pat_completeness auto
termination
  by (relation "measure id") auto

definition numToString16 :: "int \<Rightarrow> string" where
  "numToString16 i = (if i < 0 then CHR ''-'' # toString16 (nat (- i)) else toString16 (nat i))"

text \<open>\<^verbatim>\<open>String.prototype.padStart(n, c)\<close> with a one-character filler.\<close>

definition padStart :: "nat \<Rightarrow> char \<Rightarrow> string \<Rightarrow> string" where
  "padStart n c s = replicate (n - length s) c @ s"

subsection \<open>Context stores\<close>

text \<open>
  The keys of the flow, global and node context that the four handlers use. A key that
  was never set reads as \<open>undefined\<close>; the handlers treat \<open>undefined\<close> and \<open>null\<close>
  alike (both are falsy, both fail every strict comparison with a number or a string), so
  both are \<open>None\<close> here, and the flag \<^verbatim>\<open>claim_in_progress\<close>, of which only the
  truthiness is read, is a \<open>bool\<close>.
\<close>

record node_state =
  claim_in_progress :: bool
  claiming_address :: "int option"
  our_device_name :: "string option"
  used_addresses :: "int list"
  my_persistent_rvc_id :: "string option"
  rvc_source_address :: "int option"
  address_attempt :: "int option"

text \<open>The decoded frame that the conflict monitor receives in \<^verbatim>\<open>msg.payload\<close>.\<close>

record claim_frame =
  sourceAddress :: "string option"
  dataPayload :: "string option"

text \<open>The message a handler returns towards the CAN bus.\<close>

record can_msg =
  msg_payload :: string
  msg_topic :: string
  msg_claiming_address :: "int option"

subsection \<open>Conflict monitor: \<^verbatim>\<open>address_claim_monitor.js\<close>\<close>

text \<open>
  The two messages of the loss path, \<^verbatim>\<open>[retryMsg, resetTimerMsg]\<close>: the topic of the
  first output and the \<^verbatim>\<open>reset\<close> flag of the second.
\<close>

type_synonym monitor_out = "(string \<times> bool) option"

definition retryAndReset :: monitor_out where
  "retryAndReset = Some (''address_claim_retry'', True)"

text \<open>
  \<^verbatim>\<open>msg.payload.dataPayload.toUpperCase()\<close> throws a TypeError when
  \<^verbatim>\<open>msg.payload\<close> or its field \<^verbatim>\<open>dataPayload\<close> is missing. It is evaluated after
  the \<^verbatim>\<open>claim_in_progress\<close> test and before anything else.
\<close>

definition onAddressClaimedReceived ::
  "node_state \<Rightarrow> claim_frame option \<Rightarrow> js_error + (node_state \<times> monitor_out)" where
  "onAddressClaimedReceived st payload =
     (if \<not> claim_in_progress st then Inr (st, None)
      else
        (case payload of
           None \<Rightarrow> Inl TypeError
         | Some frame \<Rightarrow>
             (case dataPayload frame of
                None \<Rightarrow> Inl TypeError
              | Some raw \<Rightarrow>
                  (let claimingAddress = claiming_address st;
                       ourDeviceName = our_device_name st;
                       competitorName = toUpperCase raw;
                       sourceAddressInt = parseInt16 (sourceAddress frame)
                   in if sourceAddressInt \<noteq> None \<and> sourceAddressInt = claimingAddress then
                        (if Some competitorName = ourDeviceName then Inr (st, None)
                         else
                           (case BigInt0x ourDeviceName of
                              Inl e \<Rightarrow> Inl e
                            | Inr ourNameValue \<Rightarrow>
                                (case BigInt0x (Some competitorName) of
                                   Inl e \<Rightarrow> Inl e
                                 | Inr competitorNameValue \<Rightarrow>
                                     if ourNameValue < competitorNameValue then Inr (st, None)
                                     else Inr (st\<lparr>claim_in_progress := False\<rparr>,
                                               retryAndReset))))
                      else Inr (st, None)))))"

subsection \<open>Claim request: \<^verbatim>\<open>address_claim_request.js\<close>\<close>

definition STARTING_ADDRESS :: int where
  "STARTING_ADDRESS = 223"

definition MIN_ADDRESS :: int where
  "MIN_ADDRESS = 208"

text \<open>Step 1: the manual reset clears the saved identity and the attempt counter.\<close>

definition handleReset :: "string option \<Rightarrow> node_state \<Rightarrow> node_state" where
  "handleReset topic st =
     (if topic = Some ''reset_device_id''
      then st\<lparr>my_persistent_rvc_id := None, address_attempt := None\<rparr>
      else st)"

text \<open>
  Step 2: the persistent identity. \<open>randomSerial\<close> stands for the value of
  \<^verbatim>\<open>Math.floor(Math.random() * 0x1FFFFF)\<close>, which is read only when no identity is
  stored (an empty string is falsy and counts as absent).
\<close>

definition generateName :: "nat \<Rightarrow> string" where
  "generateName randomSerial =
     ''8000000000'' @ toUpperCase (padStart 6 (CHR ''0'') (toString16 randomSerial))"

definition getOrCreateIdentity :: "nat \<Rightarrow> node_state \<Rightarrow> string \<times> node_state" where
  "getOrCreateIdentity randomSerial st =
     (case my_persistent_rvc_id st of
        Some uniqueId \<Rightarrow>
          if uniqueId = [] then
            (generateName randomSerial,
             st\<lparr>my_persistent_rvc_id := Some (generateName randomSerial)\<rparr>)
          else (uniqueId, st)
      | None \<Rightarrow>
          (generateName randomSerial,
           st\<lparr>my_persistent_rvc_id := Some (generateName randomSerial)\<rparr>))"

text \<open>
  Step 3: the \<^verbatim>\<open>while\<close> loop that skips addresses known to be in use. Every
  iteration lowers the candidate and the loop stops below \<open>MIN_ADDRESS\<close>.
\<close>

function skipUsed :: "int list \<Rightarrow> int \<Rightarrow> int" where
  "skipUsed usedAddresses addressToTry =
     (if addressToTry \<in> set usedAddresses \<and> addressToTry \<ge> MIN_ADDRESS
      then skipUsed usedAddresses (addressToTry - 1)
      else addressToTry)"
  by pat_completeness auto
termination
  by (relation "measure (\<lambda>(u, a). nat (a - 207))") (auto simp: MIN_ADDRESS_def)

text \<open>
  \<open>previous\<close> is \<^verbatim>\<open>context.get("address_attempt")\<close>, \<open>afterLoss\<close> is
  \<^verbatim>\<open>msg.topic === "address_claim_retry"\<close>. A stored \<open>0\<close> is falsy, so
  \<^verbatim>\<open>|| STARTING_ADDRESS\<close> replaces it like an absent counter.
\<close>

definition startCandidate :: "int option \<Rightarrow> bool \<Rightarrow> int" where
  "startCandidate previous afterLoss =
     (let addressToTry =
            (case previous of
               None \<Rightarrow> STARTING_ADDRESS
             | Some p \<Rightarrow> if p = 0 then STARTING_ADDRESS else p)
      in if afterLoss then addressToTry - 1 else addressToTry)"

definition nextCandidate :: "int option \<Rightarrow> int list \<Rightarrow> bool \<Rightarrow> int" where
  "nextCandidate previous usedAddresses afterLoss =
     skipUsed usedAddresses (startCandidate previous afterLoss)"

text \<open>
  Step 4: the claim frame. The bitwise operators work on 32-bit integers and give a
  signed result, which \<^verbatim>\<open>toString(16)\<close> renders with a sign.
\<close>

definition canIdNum :: "int \<Rightarrow> int" where
  "canIdNum addressToTry =
     sint ((push_bit 26 (6 :: 32 word)) OR (push_bit 8 (0xEE00 :: 32 word))
            OR (word_of_int addressToTry :: 32 word))"

definition canIdHex :: "int \<Rightarrow> string" where
  "canIdHex addressToTry =
     toUpperCase (padStart 8 (CHR ''0'') (numToString16 (canIdNum addressToTry)))"

definition broadcastClaim :: "string \<Rightarrow> int \<Rightarrow> node_state \<Rightarrow> node_state \<times> can_msg option" where
  "broadcastClaim DEVICE_NAME addressToTry st =
     (let canMessage = canIdHex addressToTry @ ''#'' @ DEVICE_NAME
      in (st\<lparr>claiming_address := Some addressToTry,
              claim_in_progress := True,
              our_device_name := Some DEVICE_NAME\<rparr>,
          Some \<lparr>msg_payload = canMessage,
                msg_topic = ''can/send'',
                msg_claiming_address = Some addressToTry\<rparr>))"

definition address_claim_request ::
  "nat \<Rightarrow> string option \<Rightarrow> node_state \<Rightarrow> node_state \<times> can_msg option" where
  "address_claim_request randomSerial topic st =
     (let st1 = handleReset topic st;
          (DEVICE_NAME, st2) = getOrCreateIdentity randomSerial st1;
          addressToTry =
            nextCandidate (address_attempt st2) (used_addresses st2)
              (topic = Some ''address_claim_retry'')
      in if addressToTry < MIN_ADDRESS then (st2\<lparr>claim_in_progress := False\<rparr>, None)
         else broadcastClaim DEVICE_NAME addressToTry
                (st2\<lparr>address_attempt := Some addressToTry\<rparr>))"

subsection \<open>Commit on timer expiry: \<^verbatim>\<open>address_claim_success.js\<close>\<close>

text \<open>
  The argument is \<^verbatim>\<open>msg.claiming_address\<close>, the address the timer was started for;
  \<open>None\<close> is \<open>undefined\<close> or \<open>null\<close>. The handler always returns \<open>null\<close>.
\<close>

definition onClaimTimerFired ::
  "node_state \<Rightarrow> int option \<Rightarrow> node_state \<times> can_msg option" where
  "onClaimTimerFired st token =
     (case token of
        None \<Rightarrow> (st, None)
      | Some claimedAddress \<Rightarrow>
          if \<not> claim_in_progress st then (st, None)
          else if claiming_address st \<noteq> Some claimedAddress then (st, None)
          else (st\<lparr>rvc_source_address := Some claimedAddress,
                    claim_in_progress := False,
                    claiming_address := None,
                    our_device_name := None\<rparr>, None))"

subsection \<open>Second timer handler: "RV-C Store Claimed Address Function"\<close>

text \<open>
  This handler reads the address from the flow context and never looks at
  \<^verbatim>\<open>msg.claiming_address\<close>; the incoming message is returned with new
  \<^verbatim>\<open>payload\<close> and \<^verbatim>\<open>topic\<close>, so that field passes through. Its identifier is
  assembled from unsigned 32-bit parts, the upper DGN byte shifted by 18.
\<close>

definition storeCanId :: "int \<Rightarrow> nat" where
  "storeCanId claimedAddress =
     unat ((push_bit 26 (6 :: 32 word)) OR (push_bit 18 (0xEE :: 32 word))
            OR (push_bit 8 (0x00 :: 32 word)) OR (word_of_int claimedAddress :: 32 word))"

definition storeCanIdHex :: "int \<Rightarrow> string" where
  "storeCanIdHex claimedAddress =
     toUpperCase (padStart 8 (CHR ''0'') (toString16 (storeCanId claimedAddress)))"

definition addressClaimData :: string where
  "addressClaimData = ''C3A1F00700000000''"

definition storeClaimedAddress ::
  "node_state \<Rightarrow> int option \<Rightarrow> node_state \<times> can_msg option" where
  "storeClaimedAddress st token =
     (if \<not> claim_in_progress st then (st, None)
      else
        (case claiming_address st of
           None \<Rightarrow> (st, None)
         | Some claimedAddress \<Rightarrow>
             (let canMessage = storeCanIdHex claimedAddress @ ''#'' @ addressClaimData
              in (st\<lparr>rvc_source_address := Some claimedAddress,
                      claim_in_progress := False,
                      claiming_address := None\<rparr>,
                  Some \<lparr>msg_payload = canMessage,
                        msg_topic = ''can/tx'',
                        msg_claiming_address = token\<rparr>))))"

subsection \<open>The handlers as one event-driven system\<close>

text \<open>
  Modelled from the spec: the flow that wires the function nodes together (which message
  reaches which handler, and the 250 ms timer between the claim request and the commit
  handler) is not part of the function sources. Following the collaborator contracts, the
  bus transport delivers each frame to the conflict monitor, the frame a handler returns
  is sent, and the timer service fires once per armed timer with the address it was armed
  with as its token and has no cancel: a superseded timer still fires. Each event is
  handled to completion before the next one. An exception thrown by a handler ends that
  handler and leaves the context stores as they are. A restart of the process keeps the
  durable keys (the identity and the committed address), puts every other key back to its
  initial value and drops the pending timers.

  \<open>sent\<close> lists the frames handed to the bus, most recent first; \<open>armed\<close> lists the
  tokens of the timers that were started and have not fired yet.

  The events: \<open>Trigger topic randomSerial\<close> is a message with that topic reaching the
  claim request (a start, a manual reset, or the retry message of the monitor, which
  arrives as an event of its own), \<open>randomSerial\<close> being the random number the handler
  would draw; \<open>UsedAddresses\<close> is a new value of the flow key \<^verbatim>\<open>used_addresses\<close>, which
  is written outside these handlers; \<open>Received\<close> is a frame reaching the monitor;
  \<open>TimerFired\<close> and \<open>StoreTimerFired\<close> are the expiry of an armed timer, handled by the
  commit handler and by the second timer handler; \<open>Restart\<close> is a restart of the process.
\<close>

record sys =
  node :: node_state
  sent :: "string list"
  armed :: "int list"

datatype event =
    Trigger "string option" nat
  | UsedAddresses "int list"
  | Received "claim_frame option"
  | TimerFired int
  | StoreTimerFired int
  | Restart

definition init_state :: node_state where
  "init_state =
     \<lparr>claim_in_progress = False, claiming_address = None, our_device_name = None,
      used_addresses = [], my_persistent_rvc_id = None, rvc_source_address = None,
      address_attempt = None\<rparr>"

definition init_sys :: sys where
  "init_sys = \<lparr>node = init_state, sent = [], armed = []\<rparr>"

definition deliver :: "node_state \<times> can_msg option \<Rightarrow> sys \<Rightarrow> sys" where
  "deliver r s =
     (case snd r of
        None \<Rightarrow> s\<lparr>node := fst r\<rparr>
      | Some m \<Rightarrow> s\<lparr>node := fst r, sent := msg_payload m # sent s\<rparr>)"

definition armTimer :: "can_msg option \<Rightarrow> sys \<Rightarrow> sys" where
  "armTimer out s =
     (case out of
        None \<Rightarrow> s
      | Some m \<Rightarrow>
          (case msg_claiming_address m of
             None \<Rightarrow> s
           | Some token \<Rightarrow> s\<lparr>armed := token # armed s\<rparr>))"

fun dispatch :: "event \<Rightarrow> sys \<Rightarrow> sys option" where
  "dispatch (Trigger topic randomSerial) s =
     (if randomSerial < 0x1FFFFF then
        (let r = address_claim_request randomSerial topic (node s)
         in Some (armTimer (snd r) (deliver r s)))
      else None)"
| "dispatch (UsedAddresses addrs) s = Some (s\<lparr>node := (node s)\<lparr>used_addresses := addrs\<rparr>\<rparr>)"
| "dispatch (Received payload) s =
     (case onAddressClaimedReceived (node s) payload of
        Inl e \<Rightarrow> Some s
      | Inr r \<Rightarrow> Some (s\<lparr>node := fst r\<rparr>))"
| "dispatch (TimerFired token) s =
     (if token \<in> set (armed s) then
        Some (deliver (onClaimTimerFired (node s) (Some token))
                (s\<lparr>armed := remove1 token (armed s)\<rparr>))
      else None)"
| "dispatch (StoreTimerFired token) s =
     (if token \<in> set (armed s) then
        Some (deliver (storeClaimedAddress (node s) (Some token))
                (s\<lparr>armed := remove1 token (armed s)\<rparr>))
      else None)"
| "dispatch Restart s =
     Some (s\<lparr>node := init_state\<lparr>my_persistent_rvc_id := my_persistent_rvc_id (node s),
                                    rvc_source_address := rvc_source_address (node s)\<rparr>,
             armed := []\<rparr>)"

fun run :: "event list \<Rightarrow> sys \<Rightarrow> sys option" where
  "run [] s = Some s"
| "run (e # es) s = (case dispatch e s of None \<Rightarrow> None | Some s' \<Rightarrow> run es s')"

inductive reachable :: "sys \<Rightarrow> bool" where
  reachable_init: "reachable init_sys"
| reachable_step: "reachable s \<Longrightarrow> dispatch e s = Some s' \<Longrightarrow> reachable s'"

fun isTrigger :: "event \<Rightarrow> bool" where
  "isTrigger (Trigger topic randomSerial) = True"
| "isTrigger _ = False"

text \<open>
  Three properties of the states the handlers produce. Every stored identity has been made
  by \<open>generateName\<close>; the attempt counter and the claiming address lie in the pool; and
  whenever a claiming address is stored, the frame sent last is the claim frame for that
  address carrying the stored name.
\<close>

definition generated :: "string \<Rightarrow> bool" where
  "generated n = (\<exists>r. n = generateName r)"

definition names_inv :: "node_state \<Rightarrow> bool" where
  "names_inv st =
     ((case my_persistent_rvc_id st of None \<Rightarrow> True | Some n \<Rightarrow> generated n) \<and>
      (case our_device_name st of None \<Rightarrow> True | Some n \<Rightarrow> generated n))"

definition range_inv :: "node_state \<Rightarrow> bool" where
  "range_inv st =
     ((case address_attempt st of
         None \<Rightarrow> True
       | Some p \<Rightarrow> MIN_ADDRESS \<le> p \<and> p \<le> STARTING_ADDRESS) \<and>
      (case claiming_address st of
         None \<Rightarrow> True
       | Some a \<Rightarrow> MIN_ADDRESS \<le> a \<and> a \<le> STARTING_ADDRESS))"

definition broadcast_inv :: "sys \<Rightarrow> bool" where
  "broadcast_inv s =
     (case claiming_address (node s) of
        None \<Rightarrow> True
      | Some a \<Rightarrow>
          (case our_device_name (node s) of
             None \<Rightarrow> False
           | Some n \<Rightarrow>
               (case sent s of [] \<Rightarrow> False | f # fs \<Rightarrow> f = canIdHex a @ ''#'' @ n)))"

text \<open>
  A run used below: the node claims 223, a competitor with the smaller identity
  \<^verbatim>\<open>7000000000112233\<close> announces 223, and the retry claims 222. The timer armed for 223
  has not fired when the run ends.
\<close>

definition lossThenRetry :: "event list" where
  "lossThenRetry =
     [Trigger None 0x0ABCDE,
      Received (Some \<lparr>sourceAddress = Some ''DF'', dataPayload = Some ''7000000000112233''\<rparr>),
      Trigger (Some ''address_claim_retry'') 0]"

definition claiming222 :: sys where
  "claiming222 =
     \<lparr>node = \<lparr>claim_in_progress = True, claiming_address = Some 222,
              our_device_name = Some ''80000000000ABCDE'', used_addresses = [],
              my_persistent_rvc_id = Some ''80000000000ABCDE'',
              rvc_source_address = None, address_attempt = Some 222\<rparr>,
      sent = [''18EE00DE#80000000000ABCDE'', ''18EE00DF#80000000000ABCDE''],
      armed = [222, 223]\<rparr>"

subsection \<open>The retry route and the committed address per claim\<close>

text \<open>
  Modelled from the spec: the flow is not in the function sources, so the route of the
  monitor's retry message is taken from the specification, where a loss signals the
  address selector and re-invokes the claim broadcaster, and every frame is handled to
  completion before the next event. \<open>Step e randomSerial\<close> is the event \<open>e\<close> of the
  system above; when \<open>e\<close> is a frame on which the monitor returns its retry message, the
  claim request runs on that message within the same step, \<open>randomSerial\<close> being the
  random number it would draw. A \<open>Trigger\<close> is then a message from outside the
  arbitration (a start or a manual reset). \<open>committed_before\<close> records the committed
  address as it stood when the claim request last ran, that is, when the claim in progress
  was broadcast.
\<close>

record tracked =
  base :: sys
  committed_before :: "int option"

datatype tevent = Step event nat

definition emitted :: "event \<Rightarrow> sys \<Rightarrow> string list" where
  "emitted e s =
     (case e of
        Received payload \<Rightarrow>
          (case onAddressClaimedReceived (node s) payload of
             Inl err \<Rightarrow> []
           | Inr r \<Rightarrow> (case snd r of None \<Rightarrow> [] | Some out \<Rightarrow> [fst out]))
      | _ \<Rightarrow> [])"

fun dispatchT :: "tevent \<Rightarrow> tracked \<Rightarrow> tracked option" where
  "dispatchT (Step e randomSerial) t =
     (case dispatch e (base t) of
        None \<Rightarrow> None
      | Some b \<Rightarrow>
          (case emitted e (base t) of
             [] \<Rightarrow>
               Some \<lparr>base = b,
                     committed_before =
                       (if isTrigger e then rvc_source_address (node (base t))
                        else committed_before t)\<rparr>
           | topic # others \<Rightarrow>
               (case dispatch (Trigger (Some topic) randomSerial) b of
                  None \<Rightarrow> None
                | Some b' \<Rightarrow>
                    Some \<lparr>base = b', committed_before = rvc_source_address (node b)\<rparr>)))"

fun runT :: "tevent list \<Rightarrow> tracked \<Rightarrow> tracked option" where
  "runT [] t = Some t"
| "runT (e # es) t = (case dispatchT e t of None \<Rightarrow> None | Some t' \<Rightarrow> runT es t')"

definition init_tracked :: tracked where
  "init_tracked = \<lparr>base = init_sys, committed_before = None\<rparr>"

inductive reachableT :: "tracked \<Rightarrow> bool" where
  reachableT_init: "reachableT init_tracked"
| reachableT_step: "reachableT t \<Longrightarrow> dispatchT e t = Some t' \<Longrightarrow> reachableT t'"

fun isManual :: "tevent \<Rightarrow> bool" where
  "isManual (Step e randomSerial) = isTrigger e"

subsection \<open>Two nodes on one bus\<close>

text \<open>
  Modelled from the spec: the bus and the decoder that turns a raw frame into the
  monitor's input are not in the function sources. Following the transport contract, a
  frame a node sends is delivered to the other node at once, decoded into the source
  address (the last two digits of the identifier) and the data after the \<^verbatim>\<open>#\<close>.
  The events of a node are those of the system above, so the retry message of a node that
  has lost reaches its claim request as a \<open>Trigger\<close> event with the retry topic.
\<close>

definition decodeFrame :: "string \<Rightarrow> claim_frame" where
  "decodeFrame f =
     (let canId = takeWhile (\<lambda>c. c \<noteq> CHR ''#'') f
      in \<lparr>sourceAddress = Some (drop (length canId - 2) canId),
          dataPayload = Some (drop (length canId + 1) f)\<rparr>)"

definition newFrames :: "sys \<Rightarrow> sys \<Rightarrow> string list" where
  "newFrames s s' = take (length (sent s') - length (sent s)) (sent s')"

fun hear :: "string list \<Rightarrow> sys \<Rightarrow> sys" where
  "hear [] s = s"
| "hear (f # fs) s =
     (case dispatch (Received (Some (decodeFrame f))) (hear fs s) of
        None \<Rightarrow> hear fs s
      | Some s' \<Rightarrow> s')"

record net =
  leftNode :: sys
  rightNode :: sys

datatype net_event = AtLeft event | AtRight event

fun net_dispatch :: "net_event \<Rightarrow> net \<Rightarrow> net option" where
  "net_dispatch (AtLeft e) n =
     (case dispatch e (leftNode n) of
        None \<Rightarrow> None
      | Some s \<Rightarrow>
          Some \<lparr>leftNode = s,
                rightNode = hear (newFrames (leftNode n) s) (rightNode n)\<rparr>)"
| "net_dispatch (AtRight e) n =
     (case dispatch e (rightNode n) of
        None \<Rightarrow> None
      | Some s \<Rightarrow>
          Some \<lparr>leftNode = hear (newFrames (rightNode n) s) (leftNode n),
                rightNode = s\<rparr>)"

fun net_run :: "net_event list \<Rightarrow> net \<Rightarrow> net option" where
  "net_run [] n = Some n"
| "net_run (e # es) n = (case net_dispatch e n of None \<Rightarrow> None | Some n' \<Rightarrow> net_run es n')"

definition init_net :: net where
  "init_net = \<lparr>leftNode = init_sys, rightNode = init_sys\<rparr>"

text \<open>
  The state of a node that has claimed and committed 223 under the given name, with no
  timer pending; and the state after a claim of 223, its commit, and a second trigger that
  claims 223 again.
\<close>

definition committed223 :: "string \<Rightarrow> sys" where
  "committed223 name =
     \<lparr>node = \<lparr>claim_in_progress = False, claiming_address = None,
              our_device_name = None, used_addresses = [],
              my_persistent_rvc_id = Some name,
              rvc_source_address = Some 223, address_attempt = Some 223\<rparr>,
      sent = [''18EE00DF#'' @ name], armed = []\<rparr>"

definition reclaiming223 :: sys where
  "reclaiming223 =
     \<lparr>node = \<lparr>claim_in_progress = True, claiming_address = Some 223,
              our_device_name = Some ''8000000000000005'', used_addresses = [],
              my_persistent_rvc_id = Some ''8000000000000005'',
              rvc_source_address = Some 223, address_attempt = Some 223\<rparr>,
      sent = [''18EE00DF#8000000000000005'', ''18EE00DF#8000000000000005''],
      armed = [223]\<rparr>"

subsection \<open>The timer handlers as sequences of effects\<close>

text \<open>
  The order in which a timer handler writes the stores and returns its message, read off
  the statements of the two handlers from top to bottom. A message a function node returns
  is sent when the handler ends, after every write it has made.
\<close>

datatype effect =
    SetCommitted int
  | SetClaiming bool
  | SetClaimingAddress "int option"
  | SetOurName "string option"
  | ReturnMsg "can_msg option"

fun perform :: "node_state \<times> can_msg option \<Rightarrow> effect \<Rightarrow> node_state \<times> can_msg option" where
  "perform (st, out) (SetCommitted a) = (st\<lparr>rvc_source_address := Some a\<rparr>, out)"
| "perform (st, out) (SetClaiming b) = (st\<lparr>claim_in_progress := b\<rparr>, out)"
| "perform (st, out) (SetClaimingAddress a) = (st\<lparr>claiming_address := a\<rparr>, out)"
| "perform (st, out) (SetOurName n) = (st\<lparr>our_device_name := n\<rparr>, out)"
| "perform (st, out) (ReturnMsg m) = (st, m)"

definition onClaimTimerFired_effects :: "node_state \<Rightarrow> int option \<Rightarrow> effect list" where
  "onClaimTimerFired_effects st token =
     (case token of
        None \<Rightarrow> [ReturnMsg None]
      | Some claimedAddress \<Rightarrow>
          if \<not> claim_in_progress st then [ReturnMsg None]
          else if claiming_address st \<noteq> Some claimedAddress then [ReturnMsg None]
          else [SetCommitted claimedAddress, SetClaiming False, SetClaimingAddress None,
                SetOurName None, ReturnMsg None])"

definition storeClaimedAddress_effects :: "node_state \<Rightarrow> int option \<Rightarrow> effect list" where
  "storeClaimedAddress_effects st token =
     (if \<not> claim_in_progress st then [ReturnMsg None]
      else
        (case claiming_address st of
           None \<Rightarrow> [ReturnMsg None]
         | Some claimedAddress \<Rightarrow>
             [SetCommitted claimedAddress, SetClaiming False, SetClaimingAddress None,
              ReturnMsg (Some \<lparr>msg_payload = storeCanIdHex claimedAddress @ ''#'' @ addressClaimData,
                               msg_topic = ''can/tx'', msg_claiming_address = token\<rparr>)]))"

subsection \<open>The identity as an 8-byte value\<close>

text \<open>
  The specification describes the NAME as eight bytes, written as sixteen hexadecimal
  characters, and compares two NAMEs as unsigned big-endian integers. \<open>nameBytes\<close> reads
  the text two characters per byte and \<open>bigEndian\<close> is the value of a byte sequence with
  the first byte most significant. The handlers never build these; they are the
  specification's side of the comparison that the monitor makes with \<^verbatim>\<open>BigInt\<close>.
\<close>

fun nameBytes :: "string \<Rightarrow> 8 word list option" where
  "nameBytes [] = Some []"
| "nameBytes [a] = None"
| "nameBytes (a # b # rest) =
     (case hexDigit a of
        None \<Rightarrow> None
      | Some h \<Rightarrow>
          (case hexDigit b of
             None \<Rightarrow> None
           | Some l \<Rightarrow>
               (case nameBytes rest of
                  None \<Rightarrow> None
                | Some bs \<Rightarrow> Some (word_of_nat (16 * h + l) # bs))))"

definition bigEndian :: "8 word list \<Rightarrow> nat" where
  "bigEndian bs = foldl (\<lambda>acc b. 256 * acc + unat b) 0 bs"

section \<open>Evaluation and basic facts\<close>

declare skipUsed.simps [simp del]
declare toString16.simps [simp del]

lemmas js_eval =
  toUpperCase_def toUpperChar_def hexDigit_def isWhiteSpace_def trimEnd_def BigInt0x_def
  parseInt16_def stripHexPrefix_def hexChar_def numToString16_def padStart_def
  char_of_def bit_Suc_0_iff toString16.simps skipUsed.simps
  STARTING_ADDRESS_def MIN_ADDRESS_def Let_def

section \<open>Address selection\<close>

text \<open>
  What the skipping loop returns: a candidate not above the one it started with, such that
  every address it stepped over is in the used set and inside the pool, and that is itself
  free unless it has left the pool.
\<close>

lemma skipUsed_spec:
  "skipUsed used c \<le> c \<and>
   (\<forall>a. skipUsed used c < a \<and> a \<le> c \<longrightarrow> a \<in> set used \<and> MIN_ADDRESS \<le> a) \<and>
   (skipUsed used c \<in> set used \<longrightarrow> skipUsed used c < MIN_ADDRESS)"
proof (induction used c rule: skipUsed.induct)
  case (1 used c)
  show ?case
  proof (cases "c \<in> set used \<and> c \<ge> MIN_ADDRESS")
    case True
    then have eq: "skipUsed used c = skipUsed used (c - 1)"
      by (simp add: skipUsed.simps [of used c])
    from "1" True have ih:
      "skipUsed used (c - 1) \<le> c - 1"
      "\<forall>a. skipUsed used (c - 1) < a \<and> a \<le> c - 1 \<longrightarrow> a \<in> set used \<and> MIN_ADDRESS \<le> a"
      "skipUsed used (c - 1) \<in> set used \<longrightarrow> skipUsed used (c - 1) < MIN_ADDRESS"
      by simp_all
    have "\<And>a. skipUsed used (c - 1) < a \<Longrightarrow> a \<le> c \<Longrightarrow> a \<in> set used \<and> MIN_ADDRESS \<le> a"
    proof -
      fix a assume a: "skipUsed used (c - 1) < a" "a \<le> c"
      show "a \<in> set used \<and> MIN_ADDRESS \<le> a"
      proof (cases "a = c")
        case True
        with \<open>c \<in> set used \<and> c \<ge> MIN_ADDRESS\<close> show ?thesis by simp
      next
        case False
        with a have "a \<le> c - 1" by simp
        with a ih(2) show ?thesis by blast
      qed
    qed
    with ih eq show ?thesis by auto
  next
    case False
    then have eq: "skipUsed used c = c"
      by (auto simp add: skipUsed.simps [of used c])
    with False show ?thesis by auto
  qed
qed

text \<open>
  Claim C4, as stated: unless \<open>afterLoss\<close> is false and no attempt counter exists, the
  previous candidate is decremented by exactly 1 before occupied addresses are skipped.
  A trigger that is not a retry, arriving while the counter holds 220 and no address is
  in use, selects 220 again and not 219: the handler decrements only when the topic is
  \<^verbatim>\<open>address_claim_retry\<close>.
\<close>

theorem nextCandidate_retrigger_counterexample:
  "nextCandidate (Some 220) [] False = 220 \<and> nextCandidate (Some 220) [] False \<noteq> 220 - 1"
  by (simp add: nextCandidate_def startCandidate_def skipUsed.simps)

text \<open>
  Claim C4, amended: the candidate starts at \<open>STARTING_ADDRESS\<close> when there is no attempt
  counter and at the stored candidate \<open>p\<close> otherwise; it is decremented by exactly 1 when
  and only when the request follows a loss (so a stored \<open>p\<close> gives \<open>p\<close> without a loss
  and \<open>p - 1\<close> after one, and no counter gives 223 without a loss and 222 after one). From there the selector moves down past addresses of the used
  set while it is inside the pool: the result is not above the start, every address
  between the result and the start is used and at least \<open>MIN_ADDRESS\<close>, and the result
  is unused unless it is below \<open>MIN_ADDRESS\<close>.
\<close>

theorem nextCandidate_selection:
  "startCandidate None False = STARTING_ADDRESS \<and>
   startCandidate None True = STARTING_ADDRESS - 1 \<and>
   (p \<noteq> 0 \<longrightarrow> startCandidate (Some p) False = p) \<and>
   (p \<noteq> 0 \<longrightarrow> startCandidate (Some p) True = p - 1) \<and>
   nextCandidate previous used afterLoss \<le> startCandidate previous afterLoss \<and>
   (\<forall>a. nextCandidate previous used afterLoss < a \<and> a \<le> startCandidate previous afterLoss
        \<longrightarrow> a \<in> set used \<and> MIN_ADDRESS \<le> a) \<and>
   (nextCandidate previous used afterLoss \<in> set used
        \<longrightarrow> nextCandidate previous used afterLoss < MIN_ADDRESS)"
  using skipUsed_spec [of used "startCandidate previous afterLoss"]
  by (simp add: nextCandidate_def startCandidate_def)

theorem nextCandidate_selection_witness:
  "nextCandidate (Some 220) [219, 218] True = 217 \<and>
   startCandidate (Some 220) True = 219 \<and> startCandidate (Some 220) False = 220"
proof -
  have v: "nextCandidate (Some 220) [219, 218] True = 217"
    by (simp add: nextCandidate_def startCandidate_def skipUsed.simps MIN_ADDRESS_def)
  from nextCandidate_selection [of 220 "Some 220" "[219, 218]" True] v
  show ?thesis by (simp add: startCandidate_def)
qed

section \<open>Commit handler\<close>

text \<open>
  Claim C2: \<open>onClaimTimerFired\<close> with an address token does nothing when \<open>claiming\<close> is
  false (the stores are unchanged, so nothing durable is written, and no message is
  returned), does nothing when the live claiming address differs from the token, and
  otherwise writes the token as the committed source address, clears \<open>claiming\<close>,
  \<open>claimingAddress\<close> and \<open>ourName\<close>, and returns no message.
\<close>

theorem timer_contract:
  "(\<not> claim_in_progress st \<longrightarrow> onClaimTimerFired st (Some token) = (st, None)) \<and>
   (claiming_address st \<noteq> Some token \<longrightarrow> onClaimTimerFired st (Some token) = (st, None)) \<and>
   (claim_in_progress st \<and> claiming_address st = Some token \<longrightarrow>
      onClaimTimerFired st (Some token) =
        (st\<lparr>rvc_source_address := Some token, claim_in_progress := False,
            claiming_address := None, our_device_name := None\<rparr>, None))"
  by (simp add: onClaimTimerFired_def)

theorem timer_contract_witness:
  "onClaimTimerFired (init_state\<lparr>claiming_address := Some 223\<rparr>) (Some 223)
     = (init_state\<lparr>claiming_address := Some 223\<rparr>, None) \<and>
   onClaimTimerFired (init_state\<lparr>claim_in_progress := True, claiming_address := Some 222\<rparr>) (Some 223)
     = (init_state\<lparr>claim_in_progress := True, claiming_address := Some 222\<rparr>, None) \<and>
   onClaimTimerFired
       (init_state\<lparr>claim_in_progress := True, claiming_address := Some 223,
                   our_device_name := Some ''8000000000ABCDEF''\<rparr>) (Some 223)
     = (init_state\<lparr>rvc_source_address := Some 223\<rparr>, None)"
  using timer_contract [of "init_state\<lparr>claiming_address := Some 223\<rparr>" 223]
    timer_contract [of "init_state\<lparr>claim_in_progress := True, claiming_address := Some 222\<rparr>" 223]
    timer_contract [of "init_state\<lparr>claim_in_progress := True, claiming_address := Some 223,
                   our_device_name := Some ''8000000000ABCDEF''\<rparr>" 223]
  by (simp add: init_state_def)

section \<open>Frames without an identity\<close>

text \<open>
  Claim C10 says that a claim frame lacking its address or identity field, arriving while a
  claim is in flight, is logged and ignored and never makes the handler fail. While 223 is
  being claimed, a frame from address \<^verbatim>\<open>DF\<close> without the \<^verbatim>\<open>dataPayload\<close> field makes
  the monitor throw a TypeError, and one whose \<^verbatim>\<open>dataPayload\<close> is the empty string makes
  it throw a SyntaxError in the conversion to \<^verbatim>\<open>BigInt\<close>.
\<close>

theorem malformed_frame_throws:
  "onAddressClaimedReceived
     (init_state\<lparr>claim_in_progress := True, claiming_address := Some 223,
                 our_device_name := Some ''8000000000ABCDEF''\<rparr>)
     (Some \<lparr>sourceAddress = Some ''DF'', dataPayload = None\<rparr>) = Inl TypeError \<and>
   onAddressClaimedReceived
     (init_state\<lparr>claim_in_progress := True, claiming_address := Some 223,
                 our_device_name := Some ''8000000000ABCDEF''\<rparr>)
     (Some \<lparr>sourceAddress = Some ''DF'', dataPayload = Some []\<rparr>) = Inl SyntaxError"
  by (simp add: onAddressClaimedReceived_def init_state_def js_eval)

section \<open>Pool exhaustion\<close>

text \<open>
  Once no claim is in progress, no event other than a new claim request starts one, sends
  a frame or commits an address: the monitor and both timer handlers return at their first
  test.
\<close>

lemma idle_step:
  assumes "\<not> claim_in_progress (node s)" "\<not> isTrigger e" "dispatch e s = Some s'"
  shows "\<not> claim_in_progress (node s') \<and> sent s' = sent s \<and>
         rvc_source_address (node s') = rvc_source_address (node s)"
  using assms
  by (cases e)
     (auto simp: onAddressClaimedReceived_def onClaimTimerFired_def storeClaimedAddress_def
        deliver_def init_state_def split: if_splits)

lemma idle_run:
  assumes "\<not> claim_in_progress (node s)" "list_all (\<lambda>e. \<not> isTrigger e) evs" "run evs s = Some s'"
  shows "\<not> claim_in_progress (node s') \<and> sent s' = sent s \<and>
         rvc_source_address (node s') = rvc_source_address (node s)"
  using assms
proof (induction evs arbitrary: s)
  case Nil
  then show ?case by simp
next
  case (Cons e evs)
  from Cons.prems(3) obtain s1 where s1: "dispatch e s = Some s1" "run evs s1 = Some s'"
    by (auto split: option.splits)
  from Cons.prems s1 idle_step [of s e s1]
  have "\<not> claim_in_progress (node s1) \<and> sent s1 = sent s \<and>
        rvc_source_address (node s1) = rvc_source_address (node s)" by simp
  with Cons.IH [of s1] Cons.prems(2) s1(2) show ?case by simp
qed

text \<open>
  The monitor returns no retry message while no claim is in progress, so no frame makes
  the claim request run again.
\<close>

lemma monitor_idle:
  "\<not> claim_in_progress st \<Longrightarrow> onAddressClaimedReceived st payload = Inr (st, None)"
  by (simp add: onAddressClaimedReceived_def)

lemma emitted_idle: "\<not> claim_in_progress (node s) \<Longrightarrow> emitted e s = []"
  by (cases e) (simp_all add: emitted_def monitor_idle)

lemma idleT_step:
  assumes "\<not> claim_in_progress (node (base t))" "\<not> isManual e" "dispatchT e t = Some t'"
  shows "\<not> claim_in_progress (node (base t')) \<and>
         sent (base t') = sent (base t) \<and>
         rvc_source_address (node (base t')) = rvc_source_address (node (base t))"
proof (cases e)
  case (Step x r)
  from assms(1) have "emitted x (base t) = []" by (rule emitted_idle)
  with assms Step obtain b where b: "dispatch x (base t) = Some b" "\<not> isTrigger x"
    and t': "base t' = b"
    by (auto split: option.splits)
  from assms(1) b idle_step [of "base t" x b] t' show ?thesis by simp
qed

lemma idleT_run:
  assumes "\<not> claim_in_progress (node (base t))"
    "list_all (\<lambda>e. \<not> isManual e) evs" "runT evs t = Some t'"
  shows "\<not> claim_in_progress (node (base t')) \<and>
         sent (base t') = sent (base t) \<and>
         rvc_source_address (node (base t')) = rvc_source_address (node (base t))"
  using assms
proof (induction evs arbitrary: t)
  case Nil
  then show ?case by simp
next
  case (Cons e evs)
  from Cons.prems(3) obtain t1 where t1: "dispatchT e t = Some t1" "runT evs t1 = Some t'"
    by (auto split: option.splits)
  from Cons.prems(2) have m: "\<not> isManual e" "list_all (\<lambda>e. \<not> isManual e) evs" by simp_all
  from idleT_step [OF Cons.prems(1) m(1) t1(1)]
  have s: "\<not> claim_in_progress (node (base t1))"
    "sent (base t1) = sent (base t)"
    "rvc_source_address (node (base t1)) = rvc_source_address (node (base t))" by simp_all
  from Cons.IH [OF s(1) m(2) t1(2)] s(2,3) show ?case by simp
qed

text \<open>
  Claim C5: whenever the selected candidate is below \<open>MIN_ADDRESS\<close>, the claim request
  returns no frame and leaves \<open>claiming\<close> false. In the state it leaves, the monitor
  answers every frame with no message at all, so it emits no retry. From that state any
  sequence of received frames, timer expiries, used-address updates and restarts keeps
  \<open>claiming\<close> false, sends nothing and commits nothing, also when the monitor's retry
  message is routed to the claim request within the step of the frame: no step makes the
  claim request run, and only a new trigger from outside can restart the cycle.
\<close>

theorem pool_exhausted:
  assumes "nextCandidate (address_attempt (handleReset topic st)) (used_addresses st)
             (topic = Some ''address_claim_retry'') < MIN_ADDRESS"
  shows "snd (address_claim_request r topic st) = None \<and>
         \<not> claim_in_progress (fst (address_claim_request r topic st)) \<and>
         (\<forall>evs s s'. node s = fst (address_claim_request r topic st) \<and>
              list_all (\<lambda>e. \<not> isTrigger e) evs \<and> run evs s = Some s'
            \<longrightarrow> \<not> claim_in_progress (node s') \<and> sent s' = sent s \<and>
                rvc_source_address (node s') = rvc_source_address (node s)) \<and>
         (\<forall>payload. onAddressClaimedReceived (fst (address_claim_request r topic st)) payload
            = Inr (fst (address_claim_request r topic st), None)) \<and>
         (\<forall>evs t t'. node (base t) = fst (address_claim_request r topic st) \<and>
              list_all (\<lambda>e. \<not> isManual e) evs \<and> runT evs t = Some t'
            \<longrightarrow> \<not> claim_in_progress (node (base t')) \<and>
                sent (base t') = sent (base t) \<and>
                rvc_source_address (node (base t')) = rvc_source_address (node (base t)))"
proof -
  have a: "snd (address_claim_request r topic st) = None \<and>
         \<not> claim_in_progress (fst (address_claim_request r topic st))"
    using assms
    by (auto simp: address_claim_request_def getOrCreateIdentity_def handleReset_def Let_def
          split: option.splits if_splits)
  have b: "\<not> claim_in_progress (node s') \<and> sent s' = sent s \<and>
                rvc_source_address (node s') = rvc_source_address (node s)"
    if "node s = fst (address_claim_request r topic st)"
       "list_all (\<lambda>e. \<not> isTrigger e) evs" "run evs s = Some s'" for evs s s'
    using idle_run [of s evs s'] that a by simp
  have c: "onAddressClaimedReceived (fst (address_claim_request r topic st)) payload
            = Inr (fst (address_claim_request r topic st), None)" for payload
    using a by (simp add: monitor_idle)
  have d: "\<not> claim_in_progress (node (base t')) \<and>
                sent (base t') = sent (base t) \<and>
                rvc_source_address (node (base t')) = rvc_source_address (node (base t))"
    if "node (base t) = fst (address_claim_request r topic st)"
       "list_all (\<lambda>e. \<not> isManual e) evs" "runT evs t = Some t'" for evs t t'
    using idleT_run [of t evs t'] that a by simp
  from a b c d show ?thesis by blast
qed

theorem pool_exhausted_witness:
  "address_claim_request 7 (Some ''address_claim_retry'')
      (init_state\<lparr>claim_in_progress := True, claiming_address := Some 208,
                  our_device_name := Some ''8000000000000007'',
                  my_persistent_rvc_id := Some ''8000000000000007'',
                  address_attempt := Some 208\<rparr>)
    = (init_state\<lparr>claim_in_progress := False, claiming_address := Some 208,
                  our_device_name := Some ''8000000000000007'',
                  my_persistent_rvc_id := Some ''8000000000000007'',
                  address_attempt := Some 208\<rparr>, None)"
proof -
  let ?st = "init_state\<lparr>claim_in_progress := True, claiming_address := Some 208,
                  our_device_name := Some ''8000000000000007'',
                  my_persistent_rvc_id := Some ''8000000000000007'',
                  address_attempt := Some 208\<rparr>"
  have h: "nextCandidate (address_attempt (handleReset (Some ''address_claim_retry'') ?st))
             (used_addresses ?st) (Some ''address_claim_retry'' = Some ''address_claim_retry'')
           < MIN_ADDRESS"
    by (simp add: handleReset_def nextCandidate_def startCandidate_def init_state_def js_eval)
  have "fst (address_claim_request 7 (Some ''address_claim_retry'') ?st)
          = ?st\<lparr>claim_in_progress := False\<rparr>"
    by (simp add: address_claim_request_def handleReset_def getOrCreateIdentity_def
          nextCandidate_def startCandidate_def init_state_def js_eval)
  with pool_exhausted [OF h, of 7] show ?thesis
    by (simp add: prod_eq_iff init_state_def)
qed

section \<open>The claim frame\<close>

lemma address_cases:
  "208 \<le> (a::int) \<Longrightarrow> a \<le> 223 \<Longrightarrow>
   a = 208 \<or> a = 209 \<or> a = 210 \<or> a = 211 \<or> a = 212 \<or> a = 213 \<or> a = 214 \<or> a = 215 \<or>
   a = 216 \<or> a = 217 \<or> a = 218 \<or> a = 219 \<or> a = 220 \<or> a = 221 \<or> a = 222 \<or> a = 223"
  by arith

lemma canIdNum_bitwise:
  assumes "208 \<le> a" "a \<le> 223"
  shows "canIdNum a = push_bit 26 6 OR push_bit 8 0xEE00 OR a \<and> canIdNum a < 2 ^ 29"
  using address_cases [OF assms] by (elim disjE) (simp_all add: canIdNum_def)

lemma canIdHex_pool:
  assumes "208 \<le> a" "a \<le> 223"
  shows "canIdHex a = ''18EE00D'' @ [''0123456789ABCDEF'' ! nat (a - 208)] \<and>
         parseHexDigits 0 (canIdHex a) = Some (nat (canIdNum a))"
  using address_cases [OF assms]
  by (elim disjE) (simp_all add: canIdHex_def canIdNum_def js_eval)

text \<open>
  Claim C9: for every address from 208 to 223 and every NAME, the frame that
  \<open>broadcastClaim\<close> sends has the identifier \<open>(6 << 26) | (0xEE00 << 8) | address\<close>,
  which fits in 29 bits and is written as the eight upper-case hexadecimal digits
  \<^verbatim>\<open>18EE00D0\<close> to \<^verbatim>\<open>18EE00DF\<close> (reading them back gives the identifier), followed by
  \<^verbatim>\<open>#\<close> and the NAME unchanged. Address 223 with the identity
  \<^verbatim>\<open>8000000000ABCDEF\<close> gives \<^verbatim>\<open>18EE00DF#8000000000ABCDEF\<close>, also through the whole
  request handler when that identity is the stored one.
\<close>

theorem claim_frame_format:
  assumes "208 \<le> a" "a \<le> 223"
  shows "canIdNum a = push_bit 26 6 OR push_bit 8 0xEE00 OR a \<and>
         canIdNum a < 2 ^ 29 \<and>
         canIdHex a = ''18EE00D'' @ [''0123456789ABCDEF'' ! nat (a - 208)] \<and>
         parseHexDigits 0 (canIdHex a) = Some (nat (canIdNum a)) \<and>
         broadcastClaim name a st =
           (st\<lparr>claiming_address := Some a, claim_in_progress := True,
               our_device_name := Some name\<rparr>,
            Some \<lparr>msg_payload = canIdHex a @ ''#'' @ name, msg_topic = ''can/send'',
                  msg_claiming_address = Some a\<rparr>) \<and>
         snd (broadcastClaim ''8000000000ABCDEF'' 223 st) =
           Some \<lparr>msg_payload = ''18EE00DF#8000000000ABCDEF'', msg_topic = ''can/send'',
                 msg_claiming_address = Some 223\<rparr> \<and>
         snd (address_claim_request r None
                (init_state\<lparr>my_persistent_rvc_id := Some ''8000000000ABCDEF''\<rparr>)) =
           Some \<lparr>msg_payload = ''18EE00DF#8000000000ABCDEF'', msg_topic = ''can/send'',
                 msg_claiming_address = Some 223\<rparr>"
proof -
  have hex223: "canIdHex 223 = ''18EE00DF''"
    using canIdHex_pool [of 223] by simp
  have "snd (address_claim_request r None
                (init_state\<lparr>my_persistent_rvc_id := Some ''8000000000ABCDEF''\<rparr>)) =
           Some \<lparr>msg_payload = ''18EE00DF#8000000000ABCDEF'', msg_topic = ''can/send'',
                 msg_claiming_address = Some 223\<rparr>"
    by (simp add: address_claim_request_def handleReset_def getOrCreateIdentity_def
          nextCandidate_def startCandidate_def broadcastClaim_def init_state_def hex223
          STARTING_ADDRESS_def MIN_ADDRESS_def skipUsed.simps)
  moreover have "broadcastClaim name a st =
           (st\<lparr>claiming_address := Some a, claim_in_progress := True,
               our_device_name := Some name\<rparr>,
            Some \<lparr>msg_payload = canIdHex a @ ''#'' @ name, msg_topic = ''can/send'',
                  msg_claiming_address = Some a\<rparr>)"
    by (simp add: broadcastClaim_def)
  moreover have "snd (broadcastClaim ''8000000000ABCDEF'' 223 st) =
           Some \<lparr>msg_payload = ''18EE00DF#8000000000ABCDEF'', msg_topic = ''can/send'',
                 msg_claiming_address = Some 223\<rparr>"
    by (simp add: broadcastClaim_def hex223)
  ultimately show ?thesis
    using canIdNum_bitwise [OF assms] canIdHex_pool [OF assms] by blast
qed

theorem claim_frame_format_witness:
  "canIdNum 223 = 0x18EE00DF \<and> canIdHex 223 = ''18EE00DF'' \<and>
   snd (broadcastClaim ''8000000000ABCDEF'' 223 init_state) =
     Some \<lparr>msg_payload = ''18EE00DF#8000000000ABCDEF'', msg_topic = ''can/send'',
           msg_claiming_address = Some 223\<rparr>"
  using claim_frame_format [of 223 "''8000000000ABCDEF''" init_state 0]
  by simp

section \<open>The second timer handler\<close>

lemma lossThenRetry_run: "run lossThenRetry init_sys = Some claiming222"
  by (simp add: lossThenRetry_def claiming222_def init_sys_def init_state_def
        address_claim_request_def handleReset_def getOrCreateIdentity_def generateName_def
        nextCandidate_def startCandidate_def broadcastClaim_def canIdHex_def canIdNum_def
        deliver_def armTimer_def onAddressClaimedReceived_def retryAndReset_def js_eval)

text \<open>
  Claim C7: the handler that stores the claimed address never compares the timer's token
  with the live claiming address. Whenever a claim is in progress and a claiming address
  is stored, a timer event with any token commits that address and clears the flags.
  So there is an interleaving in which a stale timer commits the candidate in flight: the
  node claims 223 and arms a timer, loses 223 to a smaller identity, claims 222 and arms a
  second timer; the first timer, token 223, then fires. This handler commits 222 while the
  timer armed for 222 is still pending; the canonical handler, given the same event,
  changes nothing.
\<close>

theorem store_timer_ignores_token:
  "(claim_in_progress st \<and> claiming_address st = Some a \<longrightarrow>
      storeClaimedAddress st token =
        (st\<lparr>rvc_source_address := Some a, claim_in_progress := False,
            claiming_address := None\<rparr>,
         Some \<lparr>msg_payload = storeCanIdHex a @ ''#'' @ addressClaimData,
               msg_topic = ''can/tx'', msg_claiming_address = token\<rparr>)) \<and>
   run lossThenRetry init_sys = Some claiming222 \<and>
   dispatch (StoreTimerFired 223) claiming222 =
     Some \<lparr>node = (node claiming222)\<lparr>rvc_source_address := Some 222,
               claim_in_progress := False, claiming_address := None\<rparr>,
           sent = ''1BB800DE#C3A1F00700000000'' # sent claiming222,
           armed = [222]\<rparr> \<and>
   dispatch (TimerFired 223) claiming222 = Some (claiming222\<lparr>armed := [222]\<rparr>)"
proof -
  have "dispatch (StoreTimerFired 223) claiming222 =
     Some \<lparr>node = (node claiming222)\<lparr>rvc_source_address := Some 222,
               claim_in_progress := False, claiming_address := None\<rparr>,
           sent = ''1BB800DE#C3A1F00700000000'' # sent claiming222,
           armed = [222]\<rparr>"
    by (simp add: claiming222_def storeClaimedAddress_def storeCanIdHex_def storeCanId_def
          addressClaimData_def deliver_def js_eval)
  moreover have "dispatch (TimerFired 223) claiming222 = Some (claiming222\<lparr>armed := [222]\<rparr>)"
    by (simp add: claiming222_def onClaimTimerFired_def deliver_def)
  ultimately show ?thesis
    using lossThenRetry_run by (simp add: storeClaimedAddress_def)
qed

theorem store_timer_ignores_token_witness:
  "storeClaimedAddress (node claiming222) (Some 223) =
     ((node claiming222)\<lparr>rvc_source_address := Some 222, claim_in_progress := False,
            claiming_address := None\<rparr>,
      Some \<lparr>msg_payload = storeCanIdHex 222 @ ''#'' @ addressClaimData,
            msg_topic = ''can/tx'', msg_claiming_address = Some 223\<rparr>)"
  using store_timer_ignores_token [of "node claiming222" 222 "Some 223"]
  by (simp add: claiming222_def)

section \<open>Reachable states\<close>

lemma run_reachable:
  "reachable s \<Longrightarrow> run evs s = Some s' \<Longrightarrow> reachable s'"
proof (induction evs arbitrary: s)
  case Nil
  then show ?case by simp
next
  case (Cons e evs)
  from Cons.prems(2) obtain s1 where s1: "dispatch e s = Some s1" "run evs s1 = Some s'"
    by (auto split: option.splits)
  from Cons.prems(1) s1(1) have "reachable s1" by (rule reachable_step)
  with Cons.IH s1(2) show ?case by blast
qed

lemma reachable_claiming222: "reachable claiming222"
  using run_reachable [OF reachable_init lossThenRetry_run] .

subsection \<open>Stored identities are generated ones\<close>

lemma toUpperChar_idem: "toUpperChar (toUpperChar c) = toUpperChar c"
proof (cases "97 \<le> (of_char c :: nat) \<and> (of_char c :: nat) \<le> 122")
  case True
  then have u: "toUpperChar c = char_of (of_char c - 32 :: nat)"
    by (simp add: toUpperChar_def Let_def)
  from True have "(of_char c :: nat) - 32 < 256"
    by arith
  then have o: "(of_char (char_of (of_char c - 32 :: nat)) :: nat) = of_char c - 32"
    by simp
  from True have "\<not> (97 \<le> (of_char c :: nat) - 32 \<and> (of_char c :: nat) - 32 \<le> 122)"
    by arith
  with o have "toUpperChar (char_of (of_char c - 32 :: nat)) = char_of (of_char c - 32 :: nat)"
    by (auto simp add: toUpperChar_def Let_def)
  with u show ?thesis by simp
next
  case False
  then have "toUpperChar c = c"
    by (auto simp add: toUpperChar_def Let_def)
  then show ?thesis by simp
qed

lemma toUpperCase_idem: "toUpperCase (toUpperCase s) = toUpperCase s"
  by (simp add: toUpperCase_def toUpperChar_idem)

lemma generated_upper: "generated n \<Longrightarrow> toUpperCase n = n"
proof -
  assume "generated n"
  then obtain r where n: "n = generateName r" by (auto simp: generated_def)
  have "toUpperCase (''8000000000'' @ x) = ''8000000000'' @ toUpperCase x" for x
    by (simp add: toUpperCase_def toUpperChar_def)
  then show ?thesis
    by (simp add: n generateName_def toUpperCase_idem)
qed

lemma generated_not_constant: "generated n \<Longrightarrow> n \<noteq> addressClaimData"
  by (auto simp: generated_def generateName_def addressClaimData_def)

lemma names_inv_request:
  "names_inv st \<Longrightarrow> names_inv (fst (address_claim_request r topic st))"
  by (auto simp: names_inv_def address_claim_request_def handleReset_def
        getOrCreateIdentity_def broadcastClaim_def generated_def Let_def
        split: option.splits if_splits)

lemma names_inv_step:
  assumes "names_inv (node s)" "dispatch e s = Some s'"
  shows "names_inv (node s')"
proof (cases e)
  case (Trigger topic r)
  with assms names_inv_request [of "node s" r topic] show ?thesis
    by (auto simp: deliver_def armTimer_def Let_def split: if_splits option.splits)
next
  case (UsedAddresses addrs)
  with assms show ?thesis by (auto simp: names_inv_def)
next
  case (Received payload)
  with assms show ?thesis
    by (auto simp: names_inv_def onAddressClaimedReceived_def Let_def
          split: if_splits option.splits sum.splits)
next
  case (TimerFired t)
  with assms show ?thesis
    by (auto simp: names_inv_def onClaimTimerFired_def deliver_def split: if_splits option.splits)
next
  case (StoreTimerFired t)
  with assms show ?thesis
    by (auto simp: names_inv_def storeClaimedAddress_def deliver_def Let_def
          split: if_splits option.splits)
next
  case Restart
  with assms show ?thesis
    by (auto simp: names_inv_def init_state_def split: option.splits)
qed

lemma reachable_names: "reachable s \<Longrightarrow> names_inv (node s)"
proof (induction rule: reachable.induct)
  case reachable_init
  show ?case by (simp add: names_inv_def init_sys_def init_state_def)
next
  case (reachable_step s e s')
  then show ?case using names_inv_step by blast
qed

subsection \<open>The stored claiming address is the one broadcast last\<close>

lemma request_outcome:
  "(snd (address_claim_request r topic st) = None \<and>
    claiming_address (fst (address_claim_request r topic st)) = claiming_address st \<and>
    our_device_name (fst (address_claim_request r topic st)) = our_device_name st) \<or>
   (\<exists>a n. snd (address_claim_request r topic st) =
             Some \<lparr>msg_payload = canIdHex a @ ''#'' @ n, msg_topic = ''can/send'',
                   msg_claiming_address = Some a\<rparr> \<and>
          claiming_address (fst (address_claim_request r topic st)) = Some a \<and>
          our_device_name (fst (address_claim_request r topic st)) = Some n)"
  by (auto simp: address_claim_request_def handleReset_def getOrCreateIdentity_def
        broadcastClaim_def Let_def split: option.splits if_splits)

lemma broadcast_inv_step:
  assumes "broadcast_inv s" "dispatch e s = Some s'"
  shows "broadcast_inv s'"
proof (cases e)
  case (Trigger topic r)
  with assms request_outcome [of r topic "node s"] show ?thesis
    by (auto simp: broadcast_inv_def deliver_def armTimer_def Let_def
          split: if_splits option.splits list.splits)
next
  case (UsedAddresses addrs)
  with assms show ?thesis
    by (auto simp: broadcast_inv_def split: option.splits list.splits)
next
  case (Received payload)
  with assms show ?thesis
    by (auto simp: broadcast_inv_def onAddressClaimedReceived_def Let_def
          split: if_splits option.splits sum.splits list.splits)
next
  case (TimerFired t)
  with assms show ?thesis
    by (auto simp: broadcast_inv_def onClaimTimerFired_def deliver_def
          split: if_splits option.splits list.splits)
next
  case (StoreTimerFired t)
  with assms show ?thesis
    by (auto simp: broadcast_inv_def storeClaimedAddress_def deliver_def Let_def
          split: if_splits option.splits list.splits)
next
  case Restart
  with assms show ?thesis
    by (auto simp: broadcast_inv_def init_state_def)
qed

lemma reachable_broadcast: "reachable s \<Longrightarrow> broadcast_inv s"
proof (induction rule: reachable.induct)
  case reachable_init
  show ?case by (simp add: broadcast_inv_def init_sys_def init_state_def)
next
  case (reachable_step s e s')
  then show ?case using broadcast_inv_step by blast
qed

subsection \<open>Candidates stay in the pool\<close>

lemma startCandidate_le:
  "(case previous of None \<Rightarrow> True | Some p \<Rightarrow> p \<le> STARTING_ADDRESS) \<Longrightarrow>
   startCandidate previous afterLoss \<le> STARTING_ADDRESS"
  by (auto simp: startCandidate_def split: option.splits)

lemma nextCandidate_le:
  "(case previous of None \<Rightarrow> True | Some p \<Rightarrow> p \<le> STARTING_ADDRESS) \<Longrightarrow>
   nextCandidate previous used afterLoss \<le> STARTING_ADDRESS"
  using skipUsed_spec [of used "startCandidate previous afterLoss"]
    startCandidate_le [of previous afterLoss]
  by (simp add: nextCandidate_def)

lemma range_inv_request:
  assumes "range_inv st"
  shows "range_inv (fst (address_claim_request r topic st))"
proof -
  let ?st1 = "handleReset topic st"
  let ?st2 = "snd (getOrCreateIdentity r ?st1)"
  let ?a = "nextCandidate (address_attempt ?st2) (used_addresses ?st2)
              (topic = Some ''address_claim_retry'')"
  from assms have r2: "range_inv ?st2"
    by (auto simp: range_inv_def handleReset_def getOrCreateIdentity_def
          split: option.splits if_splits)
  then have "case address_attempt ?st2 of None \<Rightarrow> True | Some p \<Rightarrow> p \<le> STARTING_ADDRESS"
    by (auto simp: range_inv_def split: option.splits)
  then have le: "?a \<le> STARTING_ADDRESS" by (rule nextCandidate_le)
  show ?thesis
  proof (cases "?a < MIN_ADDRESS")
    case True
    then have "fst (address_claim_request r topic st) = ?st2\<lparr>claim_in_progress := False\<rparr>"
      by (simp add: address_claim_request_def Let_def split_beta)
    with r2 show ?thesis by (simp add: range_inv_def)
  next
    case False
    then have "fst (address_claim_request r topic st) =
        ?st2\<lparr>address_attempt := Some ?a, claiming_address := Some ?a,
              claim_in_progress := True,
              our_device_name := Some (fst (getOrCreateIdentity r ?st1))\<rparr>"
      by (simp add: address_claim_request_def broadcastClaim_def Let_def split_beta)
    with False le show ?thesis by (simp add: range_inv_def)
  qed
qed

lemma range_inv_step:
  assumes "range_inv (node s)" "dispatch e s = Some s'"
  shows "range_inv (node s')"
proof (cases e)
  case (Trigger topic r)
  with assms range_inv_request [of "node s" r topic] show ?thesis
    by (auto simp: deliver_def armTimer_def Let_def split: if_splits option.splits)
next
  case (UsedAddresses addrs)
  with assms show ?thesis by (auto simp: range_inv_def)
next
  case (Received payload)
  with assms show ?thesis
    by (auto simp: range_inv_def onAddressClaimedReceived_def Let_def
          split: if_splits option.splits sum.splits)
next
  case (TimerFired t)
  with assms show ?thesis
    by (auto simp: range_inv_def onClaimTimerFired_def deliver_def split: if_splits option.splits)
next
  case (StoreTimerFired t)
  with assms show ?thesis
    by (auto simp: range_inv_def storeClaimedAddress_def deliver_def Let_def
          split: if_splits option.splits)
next
  case Restart
  with assms show ?thesis
    by (auto simp: range_inv_def init_state_def)
qed

lemma reachable_range: "reachable s \<Longrightarrow> range_inv (node s)"
proof (induction rule: reachable.induct)
  case reachable_init
  show ?case by (simp add: range_inv_def init_sys_def init_state_def)
next
  case (reachable_step s e s')
  then show ?case using range_inv_step by blast
qed

section \<open>Self-echo\<close>

text \<open>
  Claim C3: in every reachable state, a received claim frame whose identity is byte for
  byte the stored \<open>ourName\<close> is a no-op for the conflict monitor, whatever its source
  address: the stores are unchanged, so \<open>claiming\<close> is not flipped, no retry is emitted,
  and a pending timer stays armed.
\<close>

theorem self_echo_ignored:
  assumes "reachable s" "our_device_name (node s) = Some n"
  shows "onAddressClaimedReceived (node s) (Some \<lparr>sourceAddress = sa, dataPayload = Some n\<rparr>)
           = Inr (node s, None) \<and>
         dispatch (Received (Some \<lparr>sourceAddress = sa, dataPayload = Some n\<rparr>)) s = Some s"
proof -
  from assms reachable_names [of s] have "generated n"
    by (simp add: names_inv_def)
  then have "toUpperCase n = n" by (rule generated_upper)
  with assms(2) have
    "onAddressClaimedReceived (node s) (Some \<lparr>sourceAddress = sa, dataPayload = Some n\<rparr>)
       = Inr (node s, None)"
    by (simp add: onAddressClaimedReceived_def Let_def)
  then show ?thesis by simp
qed

theorem self_echo_ignored_witness:
  "onAddressClaimedReceived (node claiming222)
     (Some \<lparr>sourceAddress = Some ''DE'', dataPayload = Some ''80000000000ABCDE''\<rparr>)
     = Inr (node claiming222, None) \<and>
   claim_in_progress (node claiming222)"
  using self_echo_ignored [OF reachable_claiming222, of "''80000000000ABCDE''" "Some ''DE''"]
  by (simp add: claiming222_def)

section \<open>The two success paths\<close>

lemma effects_agree:
  "foldl perform (st, None) (onClaimTimerFired_effects st token) = onClaimTimerFired st token"
  "foldl perform (st, None) (storeClaimedAddress_effects st token) = storeClaimedAddress st token"
  by (auto simp: onClaimTimerFired_effects_def onClaimTimerFired_def
        storeClaimedAddress_effects_def storeClaimedAddress_def Let_def
        split: option.splits)

lemma storeCanIdHex_222: "storeCanIdHex 222 = ''1BB800DE''"
  by (simp add: storeCanIdHex_def storeCanId_def js_eval)

text \<open>
  Claim C6, as stated, has the second handler re-broadcast a claim frame before it commits
  the address. While 222 is being claimed, the frame the second handler returns has the
  identifier \<^verbatim>\<open>1BB800DE\<close>, where the claim frame for 222 has \<^verbatim>\<open>18EE00DE\<close>; and
  the handler writes the committed address first and returns the frame last.
\<close>

theorem store_frame_counterexample:
  "snd (storeClaimedAddress (node claiming222) (Some 222)) =
     Some \<lparr>msg_payload = ''1BB800DE#C3A1F00700000000'', msg_topic = ''can/tx'',
           msg_claiming_address = Some 222\<rparr> \<and>
   canIdHex 222 = ''18EE00DE'' \<and>
   storeClaimedAddress_effects (node claiming222) (Some 222) =
     [SetCommitted 222, SetClaiming False, SetClaimingAddress None,
      ReturnMsg (Some \<lparr>msg_payload = ''1BB800DE#C3A1F00700000000'', msg_topic = ''can/tx'',
                       msg_claiming_address = Some 222\<rparr>)]"
proof -
  have "canIdHex 222 = ''18EE00DE''"
    using canIdHex_pool [of 222] by simp
  then show ?thesis
    by (simp add: claiming222_def storeClaimedAddress_def storeClaimedAddress_effects_def
          storeCanIdHex_222 addressClaimData_def)
qed

text \<open>
  Claim C6, amended: the two handlers for the expiry of the claim timer are not
  equivalent. In every reachable state in which a claim for address \<open>a\<close> is in progress,
  the canonical handler, given the token \<open>a\<close>, commits \<open>a\<close>, clears the three fields and
  returns no message, whereas the second handler first writes \<open>a\<close> as the committed
  address and clears \<open>claiming\<close> and \<open>claimingAddress\<close>, and then returns a frame whose
  payload is the constant \<^verbatim>\<open>C3A1F00700000000\<close>, which is not the node's own NAME.
  Nothing is said here about the identifier of that frame.
\<close>

theorem success_paths_differ:
  assumes "reachable s" "claim_in_progress (node s)" "claiming_address (node s) = Some a"
    "our_device_name (node s) = Some n"
  shows "onClaimTimerFired (node s) (Some a) =
           ((node s)\<lparr>rvc_source_address := Some a, claim_in_progress := False,
                     claiming_address := None, our_device_name := None\<rparr>, None) \<and>
         storeClaimedAddress (node s) (Some a) =
           ((node s)\<lparr>rvc_source_address := Some a, claim_in_progress := False,
                     claiming_address := None\<rparr>,
            Some \<lparr>msg_payload = storeCanIdHex a @ ''#C3A1F00700000000'',
                  msg_topic = ''can/tx'', msg_claiming_address = Some a\<rparr>) \<and>
         n \<noteq> ''C3A1F00700000000'' \<and>
         snd (onClaimTimerFired (node s) (Some a)) \<noteq> snd (storeClaimedAddress (node s) (Some a)) \<and>
         onClaimTimerFired_effects (node s) (Some a) =
           [SetCommitted a, SetClaiming False, SetClaimingAddress None, SetOurName None,
            ReturnMsg None] \<and>
         storeClaimedAddress_effects (node s) (Some a) =
           [SetCommitted a, SetClaiming False, SetClaimingAddress None,
            ReturnMsg (Some \<lparr>msg_payload = storeCanIdHex a @ ''#C3A1F00700000000'',
                             msg_topic = ''can/tx'', msg_claiming_address = Some a\<rparr>)] \<and>
         foldl perform (node s, None) (onClaimTimerFired_effects (node s) (Some a)) =
           onClaimTimerFired (node s) (Some a) \<and>
         foldl perform (node s, None) (storeClaimedAddress_effects (node s) (Some a)) =
           storeClaimedAddress (node s) (Some a)"
proof -
  from assms reachable_names [of s] have "generated n"
    by (simp add: names_inv_def)
  then have "n \<noteq> ''C3A1F00700000000''"
    using generated_not_constant [of n] by (simp add: addressClaimData_def)
  with assms effects_agree [of "node s" "Some a"] show ?thesis
    by (simp add: onClaimTimerFired_def storeClaimedAddress_def addressClaimData_def
          onClaimTimerFired_effects_def storeClaimedAddress_effects_def)
qed

theorem success_paths_differ_witness:
  "snd (onClaimTimerFired (node claiming222) (Some 222)) = None \<and>
   snd (storeClaimedAddress (node claiming222) (Some 222)) =
     Some \<lparr>msg_payload = ''1BB800DE#C3A1F00700000000'', msg_topic = ''can/tx'',
           msg_claiming_address = Some 222\<rparr>"
  using success_paths_differ [OF reachable_claiming222, of 222 "''80000000000ABCDE''"]
    storeCanIdHex_222
  by (simp add: claiming222_def)

section \<open>The claim cycle\<close>

lemma runT_reachable:
  "reachableT t \<Longrightarrow> runT evs t = Some t' \<Longrightarrow> reachableT t'"
proof (induction evs arbitrary: t)
  case Nil
  then show ?case by simp
next
  case (Cons e evs)
  from Cons.prems(2) obtain t1 where t1: "dispatchT e t = Some t1" "runT evs t1 = Some t'"
    by (auto split: option.splits)
  from Cons.prems(1) t1(1) have "reachableT t1" by (rule reachableT_step)
  with Cons.IH t1(2) show ?case by blast
qed

lemma dispatchT_cases:
  assumes "dispatchT (Step x r) t = Some t'"
  obtains
    (plain) "dispatch x (base t) = Some (base t')" "emitted x (base t) = []"
      "committed_before t' =
         (if isTrigger x then rvc_source_address (node (base t)) else committed_before t)"
  | (retry) b topic where "dispatch x (base t) = Some b" "\<not> isTrigger x"
      "dispatch (Trigger (Some topic) r) b = Some (base t')"
      "committed_before t' = rvc_source_address (node b)"
proof (cases "emitted x (base t)")
  case Nil
  with assms plain show ?thesis
    by (auto split: option.splits)
next
  case (Cons topic others)
  then have "\<not> isTrigger x"
    by (cases x) (simp_all add: emitted_def)
  with assms Cons retry show ?thesis
    by (auto simp del: dispatch.simps split: option.splits)
qed

lemma dispatchT_base:
  assumes "reachable (base t)" "dispatchT e t = Some t'"
  shows "reachable (base t')"
proof (cases e)
  case (Step x r)
  with assms(2) have d: "dispatchT (Step x r) t = Some t'" by simp
  from d show ?thesis
  proof (cases rule: dispatchT_cases)
    case plain
    with assms(1) show ?thesis by (blast intro: reachable_step)
  next
    case (retry b topic)
    from assms(1) retry(1) have "reachable b" by (rule reachable_step)
    with retry(3) show ?thesis by (blast intro: reachable_step)
  qed
qed

lemma reachableT_base: "reachableT t \<Longrightarrow> reachable (base t)"
proof (induction rule: reachableT.induct)
  case reachableT_init
  show ?case by (simp add: init_tracked_def reachable_init)
next
  case (reachableT_step t e t')
  then show ?case using dispatchT_base by blast
qed

lemma request_committed:
  "rvc_source_address (fst (address_claim_request r topic st)) = rvc_source_address st"
  by (auto simp: address_claim_request_def handleReset_def getOrCreateIdentity_def
        broadcastClaim_def Let_def split: option.splits if_splits)

lemma trigger_committed:
  assumes "dispatch (Trigger topic r) s = Some s'"
  shows "rvc_source_address (node s') = rvc_source_address (node s)"
  using assms request_committed [of r topic "node s"]
  by (auto simp: deliver_def armTimer_def Let_def split: if_splits option.splits)

text \<open>
  A step that is not a run of the claim request either leaves the committed address as it
  is or leaves \<open>claiming\<close> false.
\<close>

lemma uncommitted_step:
  assumes "claim_in_progress (node s) \<longrightarrow> rvc_source_address (node s) = c"
    "\<not> isTrigger e" "dispatch e s = Some s'"
  shows "claim_in_progress (node s') \<longrightarrow> rvc_source_address (node s') = c"
  using assms
  by (cases e)
     (auto simp: onAddressClaimedReceived_def onClaimTimerFired_def storeClaimedAddress_def
        deliver_def init_state_def Let_def split: if_splits option.splits sum.splits)

lemma uncommitted_stepT:
  assumes "claim_in_progress (node (base t)) \<longrightarrow>
             rvc_source_address (node (base t)) = committed_before t"
    "dispatchT e t = Some t'"
  shows "claim_in_progress (node (base t')) \<longrightarrow>
           rvc_source_address (node (base t')) = committed_before t'"
proof (cases e)
  case (Step x r)
  with assms(2) have d: "dispatchT (Step x r) t = Some t'" by simp
  from d show ?thesis
  proof (cases rule: dispatchT_cases)
    case plain
    show ?thesis
    proof (cases "isTrigger x")
      case True
      then obtain topic q where "x = Trigger topic q" by (cases x) auto
      with plain trigger_committed [of topic q "base t" "base t'"] True show ?thesis by simp
    next
      case False
      with uncommitted_step [OF assms(1) False plain(1)] plain(3) show ?thesis by simp
    qed
  next
    case (retry b topic)
    with trigger_committed [OF retry(3)] show ?thesis by simp
  qed
qed

lemma reachableT_uncommitted:
  "reachableT t \<Longrightarrow>
   claim_in_progress (node (base t)) \<longrightarrow> rvc_source_address (node (base t)) = committed_before t"
proof (induction rule: reachableT.induct)
  case reachableT_init
  show ?case by (simp add: init_tracked_def init_sys_def init_state_def)
next
  case (reachableT_step t e t')
  then show ?case using uncommitted_stepT by blast
qed

lemma pad5: "replicate 5 CHR ''0'' = ''00000''"
  by (simp add: eval_nat_numeral)

lemma retrigger_run:
  "run [Trigger None 5, TimerFired 223, Trigger None 7] init_sys = Some reclaiming223"
  by (simp add: reclaiming223_def init_sys_def init_state_def
        address_claim_request_def handleReset_def getOrCreateIdentity_def generateName_def
        nextCandidate_def startCandidate_def broadcastClaim_def canIdHex_def canIdNum_def
        deliver_def armTimer_def onClaimTimerFired_def js_eval pad5)

lemma retrigger_runT:
  "runT [Step (Trigger None 5) 0, Step (TimerFired 223) 0, Step (Trigger None 7) 0]
     init_tracked =
   Some \<lparr>base = reclaiming223, committed_before = Some 223\<rparr>"
  by (simp add: reclaiming223_def init_tracked_def init_sys_def init_state_def emitted_def
        address_claim_request_def handleReset_def getOrCreateIdentity_def generateName_def
        nextCandidate_def startCandidate_def broadcastClaim_def canIdHex_def canIdNum_def
        deliver_def armTimer_def onClaimTimerFired_def js_eval pad5)

text \<open>
  Claim C8, as stated, lets at most one of \<open>claiming = true\<close> and a set committed address
  hold for the active cycle in every reachable state. The node claims 223 and commits it,
  and a second trigger starts a new cycle for 223: \<open>claiming\<close> is true and the committed
  address is set, both for address 223. The committed address is durable and no handler
  clears it.
\<close>

theorem committed_address_survives_retrigger:
  "run [Trigger None 5, TimerFired 223, Trigger None 7] init_sys =
     Some \<lparr>node = \<lparr>claim_in_progress = True, claiming_address = Some 223,
                   our_device_name = Some ''8000000000000005'', used_addresses = [],
                   my_persistent_rvc_id = Some ''8000000000000005'',
                   rvc_source_address = Some 223, address_attempt = Some 223\<rparr>,
           sent = [''18EE00DF#8000000000000005'', ''18EE00DF#8000000000000005''],
           armed = [223]\<rparr>"
  using retrigger_run by (simp add: reclaiming223_def)

text \<open>
  Claim C8, amended, for every reachable state. A stored claiming address lies in the pool
  and is the address of the frame sent last, which is the claim frame carrying the stored
  name. And while \<open>claiming\<close> is true, the committed address is still the one that was
  stored when the claim in progress was broadcast: the claim in progress has committed
  nothing, and every write of the committed address leaves \<open>claiming\<close> false until the
  claim request runs again. A committed address left by an earlier cycle may be set while
  a later cycle is claiming.
\<close>

theorem claim_cycle_invariant:
  assumes "reachableT t"
  shows "(\<forall>a. claiming_address (node (base t)) = Some a \<longrightarrow>
            MIN_ADDRESS \<le> a \<and> a \<le> STARTING_ADDRESS \<and>
            (\<exists>n fs. our_device_name (node (base t)) = Some n \<and>
                    sent (base t) = (canIdHex a @ ''#'' @ n) # fs)) \<and>
         (claim_in_progress (node (base t)) \<longrightarrow>
            rvc_source_address (node (base t)) = committed_before t)"
proof -
  from assms have r: "reachable (base t)" by (rule reachableT_base)
  have first: "MIN_ADDRESS \<le> a \<and> a \<le> STARTING_ADDRESS \<and>
      (\<exists>n fs. our_device_name (node (base t)) = Some n \<and>
         sent (base t) = (canIdHex a @ ''#'' @ n) # fs)"
    if "claiming_address (node (base t)) = Some a" for a
    using reachable_broadcast [OF r] reachable_range [OF r] that
    by (auto simp: broadcast_inv_def range_inv_def split: option.splits list.splits)
  from first reachableT_uncommitted [OF assms] show ?thesis by blast
qed

theorem claim_cycle_invariant_witness:
  "claim_in_progress (node reclaiming223) \<and>
   rvc_source_address (node reclaiming223) = Some 223 \<and>
   sent reclaiming223 =
     (canIdHex 223 @ ''#'' @ ''8000000000000005'') # [''18EE00DF#8000000000000005'']"
proof -
  let ?t = "\<lparr>base = reclaiming223, committed_before = Some 223\<rparr>"
  have r: "reachableT ?t"
    using runT_reachable [OF reachableT_init retrigger_runT] .
  have c: "claim_in_progress (node reclaiming223)"
    "claiming_address (node reclaiming223) = Some 223"
    by (simp_all add: reclaiming223_def)
  from claim_cycle_invariant [OF r] c
  have "rvc_source_address (node reclaiming223) = Some 223"
    by simp
  moreover from claim_cycle_invariant [OF r] c
  have "\<exists>n fs. our_device_name (node reclaiming223) = Some n \<and>
           sent reclaiming223 = (canIdHex 223 @ ''#'' @ n) # fs"
    by simp
  then have "sent reclaiming223 =
      (canIdHex 223 @ ''#'' @ ''8000000000000005'') # [''18EE00DF#8000000000000005'']"
    by (auto simp: reclaiming223_def)
  ultimately show ?thesis using c by simp
qed

section \<open>Conflict resolution\<close>

subsection \<open>The comparison made with BigInt is the big-endian comparison of the bytes\<close>

lemma hexDigit_less: "hexDigit c = Some d \<Longrightarrow> d < 16"
  by (auto simp: hexDigit_def Let_def split: if_splits)

lemma hexDigit_upper: "hexDigit (toUpperChar c) = hexDigit c"
  by (auto simp: toUpperChar_def hexDigit_def Let_def)

lemma hexDigit_not_space: "hexDigit c = Some d \<Longrightarrow> \<not> isWhiteSpace c"
  by (auto simp: hexDigit_def isWhiteSpace_def Let_def split: if_splits)

lemma nameBytes_upper: "nameBytes (toUpperCase s) = nameBytes s"
  by (induction s rule: nameBytes.induct)
     (auto simp: toUpperCase_def hexDigit_upper split: option.splits)

lemma nameBytes_length: "nameBytes s = Some bs \<Longrightarrow> length s = 2 * length bs"
  by (induction s arbitrary: bs rule: nameBytes.induct) (auto split: option.splits)

lemma nameBytes_last:
  "nameBytes s = Some bs \<Longrightarrow> s \<noteq> [] \<Longrightarrow> \<not> isWhiteSpace (last s)"
proof (induction s arbitrary: bs rule: nameBytes.induct)
  case 1
  then show ?case by simp
next
  case (2 a)
  then show ?case by simp
next
  case (3 a b rest)
  show ?case
  proof (cases "rest = []")
    case True
    with "3.prems" show ?thesis
      by (auto split: option.splits dest: hexDigit_not_space)
  next
    case False
    with "3.prems" "3.IH" show ?thesis
      by (auto split: option.splits)
  qed
qed

lemma nameBytes_trimEnd: "nameBytes s = Some bs \<Longrightarrow> trimEnd s = s"
proof (cases "s = []")
  case True
  then show ?thesis by (simp add: trimEnd_def)
next
  case False
  assume "nameBytes s = Some bs"
  with False have "\<not> isWhiteSpace (last s)" by (rule nameBytes_last [rotated])
  with False have "dropWhile isWhiteSpace (rev s) = rev s"
    by (cases "rev s") (auto simp: last_rev [symmetric] hd_rev)
  then show ?thesis by (simp add: trimEnd_def)
qed

lemma nameBytes_parse:
  "nameBytes s = Some bs \<Longrightarrow>
   parseHexDigits acc s = Some (foldl (\<lambda>acc b. 256 * acc + unat b) acc bs)"
proof (induction s arbitrary: bs acc rule: nameBytes.induct)
  case 1
  then show ?case by simp
next
  case (2 a)
  then show ?case by simp
next
  case (3 a b rest)
  from "3.prems" obtain h l bs' where
    d: "hexDigit a = Some h" "hexDigit b = Some l" "nameBytes rest = Some bs'"
    and bs: "bs = word_of_nat (16 * h + l) # bs'"
    by (auto split: option.splits)
  from d(1,2) have "16 * h + l < 256"
    using hexDigit_less [of a h] hexDigit_less [of b l] by simp
  then have "unat (word_of_nat (16 * h + l) :: 8 word) = 16 * h + l"
    by (simp only: unat_of_nat) simp
  then have u: "unat (16 * word_of_nat h + word_of_nat l :: 8 word) = 16 * h + l"
    by simp
  from "3.IH" [OF d] have
    "parseHexDigits (16 * (16 * acc + h) + l) rest =
       Some (foldl (\<lambda>acc b. 256 * acc + unat b) (16 * (16 * acc + h) + l) bs')" .
  moreover have "16 * (16 * acc + h) + l = 256 * acc + (16 * h + l)" by simp
  ultimately show ?case
    using d(1,2) by (simp add: bs u add.assoc)
qed

lemma BigInt0x_bigEndian:
  assumes "nameBytes s = Some bs" "bs \<noteq> []"
  shows "BigInt0x (Some s) = Inr (bigEndian bs)"
proof -
  from assms nameBytes_length [of s bs] have "s \<noteq> []" by auto
  with assms(1) show ?thesis
    by (simp add: BigInt0x_def nameBytes_trimEnd [of s bs] nameBytes_parse [of s bs 0]
          bigEndian_def)
qed

lemma foldl_bigEndian:
  "foldl (\<lambda>acc b. 256 * acc + unat (b :: 8 word)) acc bs = acc * 256 ^ length bs + bigEndian bs"
proof (induction bs arbitrary: acc)
  case Nil
  show ?case by (simp add: bigEndian_def)
next
  case (Cons b bs)
  have "foldl (\<lambda>acc b. 256 * acc + unat b) acc (b # bs)
          = (256 * acc + unat b) * 256 ^ length bs + bigEndian bs"
    using Cons.IH [of "256 * acc + unat b"] by simp
  moreover have "bigEndian (b # bs) = unat b * 256 ^ length bs + bigEndian bs"
    using Cons.IH [of "unat b"] by (simp add: bigEndian_def)
  ultimately show ?case by (simp add: algebra_simps)
qed

lemma bigEndian_Cons: "bigEndian (b # bs) = unat b * 256 ^ length bs + bigEndian bs"
  using foldl_bigEndian [of "unat b" bs] by (simp add: bigEndian_def)

lemma bigEndian_bound: "bigEndian bs < 256 ^ length bs"
proof (induction bs)
  case Nil
  show ?case by (simp add: bigEndian_def)
next
  case (Cons b bs)
  have "unat b < 2 ^ LENGTH(8)" by (rule unsigned_less)
  then have "unat b < 256" by simp
  then have "unat b * 256 ^ length bs \<le> 255 * 256 ^ length bs"
    by (intro mult_le_mono1) simp
  from this Cons.IH
  have "unat b * 256 ^ length bs + bigEndian bs < 255 * 256 ^ length bs + 256 ^ length bs"
    by (rule add_le_less_mono)
  then show ?case by (simp add: bigEndian_Cons)
qed

lemma bigEndian_inject:
  "length as = length bs \<Longrightarrow> bigEndian as = bigEndian bs \<Longrightarrow> as = bs"
proof (induction as bs rule: list_induct2)
  case Nil
  show ?case by simp
next
  case (Cons a as b bs)
  let ?K = "(256 :: nat) ^ length as"
  from Cons.hyps have len: "length bs = length as" by simp
  from Cons.prems have e: "unat a * ?K + bigEndian as = unat b * ?K + bigEndian bs"
    by (simp add: bigEndian_Cons len)
  have ra: "bigEndian as < ?K" by (rule bigEndian_bound)
  have rb: "bigEndian bs < ?K" using bigEndian_bound [of bs] by (simp add: len)
  from e have "(unat a * ?K + bigEndian as) div ?K = (unat b * ?K + bigEndian bs) div ?K"
    by simp
  with ra rb have q: "unat a = unat b" by simp
  with e have "bigEndian as = bigEndian bs" by simp
  with Cons.IH q show ?case by (simp add: word_unat_eq_iff)
qed

subsection \<open>The tie-break\<close>

lemma monitor_conflict:
  assumes "claim_in_progress st" "claiming_address st = Some a" "parseInt16 sa = Some a"
    "our_device_name st = Some ours" "nameBytes ours = Some A" "nameBytes other = Some B"
    "A \<noteq> []" "B \<noteq> []" "bigEndian A \<noteq> bigEndian B"
  shows "onAddressClaimedReceived st (Some \<lparr>sourceAddress = sa, dataPayload = Some other\<rparr>) =
           (if bigEndian A < bigEndian B then Inr (st, None)
            else Inr (st\<lparr>claim_in_progress := False\<rparr>, retryAndReset))"
proof -
  have ne: "toUpperCase other \<noteq> ours"
  proof
    assume "toUpperCase other = ours"
    with assms(5,6) nameBytes_upper [of other] have "A = B" by simp
    with assms(9) show False by simp
  qed
  have o: "BigInt0x (Some ours) = Inr (bigEndian A)"
    using assms(5,7) by (rule BigInt0x_bigEndian)
  have "nameBytes (toUpperCase other) = Some B"
    using assms(6) by (simp add: nameBytes_upper)
  then have c: "BigInt0x (Some (toUpperCase other)) = Inr (bigEndian B)"
    using assms(8) by (rule BigInt0x_bigEndian)
  from assms(1-4) ne o c show ?thesis
    by (simp add: onAddressClaimedReceived_def Let_def)
qed

text \<open>
  Claim C1, as stated, has exactly one of two contending nodes proceed and the other retry,
  whichever announcement arrives first. Two nodes on one bus, the left one with the smaller
  identity: the left node announces 223 while the right node is not claiming, so the right
  node ignores the frame; the right node then announces 223, and the left node, which is
  claiming, wins and sends nothing. Neither node retries, both timers expire and both
  nodes commit 223. When the right node announces first, it is the right node that sees
  the left node's frame while claiming: it loses, retries with 222 and commits 222, and
  the left node commits 223.
\<close>

theorem both_commit_counterexample:
  "net_run [AtLeft (Trigger None 1), AtRight (Trigger None 2),
            AtLeft (TimerFired 223), AtRight (TimerFired 223)] init_net =
     Some \<lparr>leftNode = committed223 ''8000000000000001'',
           rightNode = committed223 ''8000000000000002''\<rparr> \<and>
   net_run [AtRight (Trigger None 2), AtLeft (Trigger None 1),
            AtRight (Trigger (Some ''address_claim_retry'') 0),
            AtLeft (TimerFired 223), AtRight (TimerFired 222)] init_net =
     Some \<lparr>leftNode = committed223 ''8000000000000001'',
           rightNode =
             \<lparr>node = \<lparr>claim_in_progress = False, claiming_address = None,
                      our_device_name = None, used_addresses = [],
                      my_persistent_rvc_id = Some ''8000000000000002'',
                      rvc_source_address = Some 222, address_attempt = Some 222\<rparr>,
              sent = [''18EE00DE#8000000000000002'', ''18EE00DF#8000000000000002''],
              armed = [223]\<rparr>\<rparr>"
  by (simp add: init_net_def init_sys_def init_state_def committed223_def
        decodeFrame_def newFrames_def
        address_claim_request_def handleReset_def getOrCreateIdentity_def generateName_def
        nextCandidate_def startCandidate_def broadcastClaim_def canIdHex_def canIdNum_def
        deliver_def armTimer_def onClaimTimerFired_def onAddressClaimedReceived_def
        retryAndReset_def js_eval pad5)

text \<open>
  Claim C1, amended. A node is claiming address \<open>a\<close> under the name \<open>ours\<close>, whose
  eight bytes are \<open>A\<close>, and receives a claim frame for that address with the identity
  \<open>other\<close>, whose eight bytes are \<open>B\<close>. Both are below \<open>2 ^ 64\<close> as big-endian
  integers. If ours is the smaller, the monitor changes nothing and sends nothing; if ours
  is the larger, it sets \<open>claiming\<close> to false and emits the retry message, whose topic
  is the one the claim request tests before it decrements the candidate, together with the
  timer reset. Consequently, when the identities differ and the competitor is a node of
  the same kind that is claiming \<open>a\<close> under the name \<open>other\<close> when it receives our
  frame, exactly one of the two continues, the one with the smaller identity, and the
  other retries. A node that is not claiming when a frame arrives ignores it, whatever the
  frame.
\<close>

theorem conflict_tie_break:
  assumes "claim_in_progress st" "claiming_address st = Some a" "parseInt16 sa = Some a"
    "our_device_name st = Some ours" "nameBytes ours = Some A" "nameBytes other = Some B"
    "length A = 8" "length B = 8"
  shows "bigEndian A < 2 ^ 64 \<and> bigEndian B < 2 ^ 64 \<and>
    (bigEndian A < bigEndian B \<longrightarrow>
       onAddressClaimedReceived st (Some \<lparr>sourceAddress = sa, dataPayload = Some other\<rparr>)
         = Inr (st, None)) \<and>
    (bigEndian B < bigEndian A \<longrightarrow>
       onAddressClaimedReceived st (Some \<lparr>sourceAddress = sa, dataPayload = Some other\<rparr>)
         = Inr (st\<lparr>claim_in_progress := False\<rparr>, Some (''address_claim_retry'', True))) \<and>
    (\<forall>st'. A \<noteq> B \<and> claim_in_progress st' \<and> claiming_address st' = Some a \<and>
           our_device_name st' = Some other \<longrightarrow>
       (bigEndian A < bigEndian B \<and>
        onAddressClaimedReceived st (Some \<lparr>sourceAddress = sa, dataPayload = Some other\<rparr>)
          = Inr (st, None) \<and>
        onAddressClaimedReceived st' (Some \<lparr>sourceAddress = sa, dataPayload = Some ours\<rparr>)
          = Inr (st'\<lparr>claim_in_progress := False\<rparr>, Some (''address_claim_retry'', True))) \<or>
       (bigEndian B < bigEndian A \<and>
        onAddressClaimedReceived st' (Some \<lparr>sourceAddress = sa, dataPayload = Some ours\<rparr>)
          = Inr (st', None) \<and>
        onAddressClaimedReceived st (Some \<lparr>sourceAddress = sa, dataPayload = Some other\<rparr>)
          = Inr (st\<lparr>claim_in_progress := False\<rparr>, Some (''address_claim_retry'', True)))) \<and>
    (\<forall>idle payload. \<not> claim_in_progress idle \<longrightarrow>
       onAddressClaimedReceived idle payload = Inr (idle, None))"
proof -
  from assms(7,8) have ne: "A \<noteq> []" "B \<noteq> []" by auto
  have bA: "bigEndian A < 2 ^ 64"
    using bigEndian_bound [of A] assms(7) by simp
  have bB: "bigEndian B < 2 ^ 64"
    using bigEndian_bound [of B] assms(8) by simp
  have mine: "onAddressClaimedReceived st (Some \<lparr>sourceAddress = sa, dataPayload = Some other\<rparr>) =
           (if bigEndian A < bigEndian B then Inr (st, None)
            else Inr (st\<lparr>claim_in_progress := False\<rparr>, retryAndReset))"
    if "bigEndian A \<noteq> bigEndian B"
    using monitor_conflict [OF assms(1-6) ne that] .
  have theirs: "onAddressClaimedReceived st' (Some \<lparr>sourceAddress = sa, dataPayload = Some ours\<rparr>) =
           (if bigEndian B < bigEndian A then Inr (st', None)
            else Inr (st'\<lparr>claim_in_progress := False\<rparr>, retryAndReset))"
    if "bigEndian A \<noteq> bigEndian B" "claim_in_progress st'" "claiming_address st' = Some a"
      "our_device_name st' = Some other" for st'
    using monitor_conflict [OF that(2,3) assms(3) that(4) assms(6,5) ne(2,1)] that(1) by simp
  have distinct: "bigEndian A \<noteq> bigEndian B" if "A \<noteq> B"
    using bigEndian_inject [of A B] assms(7,8) that by auto
  have p1: "bigEndian A < bigEndian B \<longrightarrow>
       onAddressClaimedReceived st (Some \<lparr>sourceAddress = sa, dataPayload = Some other\<rparr>)
         = Inr (st, None)"
    using mine by simp
  have p2: "bigEndian B < bigEndian A \<longrightarrow>
       onAddressClaimedReceived st (Some \<lparr>sourceAddress = sa, dataPayload = Some other\<rparr>)
         = Inr (st\<lparr>claim_in_progress := False\<rparr>, Some (''address_claim_retry'', True))"
    using mine by (simp add: retryAndReset_def)
  have p3: "(bigEndian A < bigEndian B \<and>
        onAddressClaimedReceived st (Some \<lparr>sourceAddress = sa, dataPayload = Some other\<rparr>)
          = Inr (st, None) \<and>
        onAddressClaimedReceived st' (Some \<lparr>sourceAddress = sa, dataPayload = Some ours\<rparr>)
          = Inr (st'\<lparr>claim_in_progress := False\<rparr>, Some (''address_claim_retry'', True))) \<or>
       (bigEndian B < bigEndian A \<and>
        onAddressClaimedReceived st' (Some \<lparr>sourceAddress = sa, dataPayload = Some ours\<rparr>)
          = Inr (st', None) \<and>
        onAddressClaimedReceived st (Some \<lparr>sourceAddress = sa, dataPayload = Some other\<rparr>)
          = Inr (st\<lparr>claim_in_progress := False\<rparr>, Some (''address_claim_retry'', True)))"
    if h: "A \<noteq> B \<and> claim_in_progress st' \<and> claiming_address st' = Some a \<and>
           our_device_name st' = Some other" for st'
  proof -
    from h distinct have d: "bigEndian A \<noteq> bigEndian B" by simp
    show ?thesis
    proof (cases "bigEndian A < bigEndian B")
      case True
      with mine [OF d] theirs [OF d, of st'] h show ?thesis
        by (simp add: retryAndReset_def)
    next
      case False
      with d have "bigEndian B < bigEndian A" by simp
      with mine [OF d] theirs [OF d, of st'] h show ?thesis
        by (simp add: retryAndReset_def)
    qed
  qed
  have p4: "onAddressClaimedReceived idle payload = Inr (idle, None)"
    if "\<not> claim_in_progress idle" for idle payload
    using that by (rule monitor_idle)
  from bA bB p1 p2 p3 p4 show ?thesis by blast
qed

theorem conflict_tie_break_witness:
  "onAddressClaimedReceived
     (init_state\<lparr>claim_in_progress := True, claiming_address := Some 223,
                 our_device_name := Some ''8000000000ABCDEF''\<rparr>)
     (Some \<lparr>sourceAddress = Some ''DF'', dataPayload = Some ''7000000000112233''\<rparr>)
     = Inr (init_state\<lparr>claim_in_progress := False, claiming_address := Some 223,
                       our_device_name := Some ''8000000000ABCDEF''\<rparr>,
            Some (''address_claim_retry'', True)) \<and>
   onAddressClaimedReceived
     (init_state\<lparr>claim_in_progress := True, claiming_address := Some 223,
                 our_device_name := Some ''7000000000112233''\<rparr>)
     (Some \<lparr>sourceAddress = Some ''DF'', dataPayload = Some ''8000000000ABCDEF''\<rparr>)
     = Inr (init_state\<lparr>claim_in_progress := True, claiming_address := Some 223,
                       our_device_name := Some ''7000000000112233''\<rparr>, None)"
proof -
  let ?A = "[0x80, 0, 0, 0, 0, 0xAB, 0xCD, 0xEF] :: 8 word list"
  let ?B = "[0x70, 0, 0, 0, 0, 0x11, 0x22, 0x33] :: 8 word list"
  let ?stA = "init_state\<lparr>claim_in_progress := True, claiming_address := Some 223,
                 our_device_name := Some ''8000000000ABCDEF''\<rparr>"
  let ?stB = "init_state\<lparr>claim_in_progress := True, claiming_address := Some 223,
                 our_device_name := Some ''7000000000112233''\<rparr>"
  have nA: "nameBytes ''8000000000ABCDEF'' = Some ?A"
    by (simp add: hexDigit_def)
  have nB: "nameBytes ''7000000000112233'' = Some ?B"
    by (simp add: hexDigit_def)
  have sa: "parseInt16 (Some ''DF'') = Some 223"
    by (simp add: js_eval)
  have lt: "bigEndian ?B < bigEndian ?A"
    by (simp add: bigEndian_def)
  have cA: "claim_in_progress ?stA" "claiming_address ?stA = Some 223"
    "our_device_name ?stA = Some ''8000000000ABCDEF''"
    by (simp_all add: init_state_def)
  have cB: "claim_in_progress ?stB" "claiming_address ?stB = Some 223"
    "our_device_name ?stB = Some ''7000000000112233''"
    by (simp_all add: init_state_def)
  have l: "length ?A = 8" "length ?B = 8" by simp_all
  from conflict_tie_break [OF cA(1,2) sa cA(3) nA nB l] lt
  have "onAddressClaimedReceived ?stA
          (Some \<lparr>sourceAddress = Some ''DF'', dataPayload = Some ''7000000000112233''\<rparr>)
        = Inr (?stA\<lparr>claim_in_progress := False\<rparr>, Some (''address_claim_retry'', True))"
    by blast
  moreover from conflict_tie_break [OF cB(1,2) sa cB(3) nB nA l(2,1)] lt
  have "onAddressClaimedReceived ?stB
          (Some \<lparr>sourceAddress = Some ''DF'', dataPayload = Some ''8000000000ABCDEF''\<rparr>)
        = Inr (?stB, None)"
    by blast
  ultimately show ?thesis by (simp add: init_state_def)
qed

end
